theory Spec2Isabelle
  imports Complex_Main
begin

section \<open>Common vocabulary\<close>

text \<open>
  A raised exception is a value: its class name and its message.  Which exceptions an
  \<open>except (C1, ..., Cn)\<close> clause catches is a predicate on exceptions (the
  \<open>isinstance\<close> test against the tuple of classes).
\<close>

datatype pyexn = PyExn (exn_class: string) (exn_msg: string)

text \<open>
  Timestamps are \<open>datetime\<close> values: integers counting the microseconds since
  \<open>datetime.min\<close> (year 1), the resolution of the Python type; a \<open>datetime\<close> lies
  between 0 and \<open>datetime_max\<close> (the last microsecond of year 9999). A \<open>timedelta\<close> is
  an integer number of microseconds as well. Every call of \<open>datetime.now()\<close> in the
  source is an explicit argument of the model.

  The constructors of \<open>timedelta\<close> raise \<open>OverflowError\<close> when the number of days is
  above 999999999 in magnitude, and adding a \<open>timedelta\<close> to a \<open>datetime\<close> raises it when
  the sum leaves the range of \<open>datetime\<close>. The message of the first prints the day
  count and is kept without it (for a number beyond the machine integers the message
  is another one, the class is the same).
\<close>

type_synonym time = int

definition datetime_max :: time where
  "datetime_max = 315537897599999999"

definition timedelta_seconds :: "int \<Rightarrow> pyexn + int" where
  "timedelta_seconds n =
     (if \<bar>n div 86400\<bar> \<le> 999999999 then Inr (n * 1000000)
      else Inl (PyExn ''OverflowError'' ''must have magnitude <= 999999999''))"


definition datetime_add :: "time \<Rightarrow> int \<Rightarrow> pyexn + time" where
  "datetime_add t d =
     (if 0 \<le> t + d \<and> t + d \<le> datetime_max then Inr (t + d)
      else Inl (PyExn ''OverflowError'' ''date value out of range''))"

definition total_seconds :: "int \<Rightarrow> real" where
  "total_seconds d = real_of_int d / 1000000"

text \<open>
  A wrapped callable acts on a world and either returns a value or raises.  The world
  keeps what the callable itself changes (\<open>app\<close>) and the delays handed to
  \<open>time.sleep\<close>, in order.
\<close>

record 'u world =
  app :: 'u
  sleeps :: "real list"

type_synonym ('a, 'u) callable = "'u world \<Rightarrow> (pyexn + 'a) \<times> 'u world"

section \<open>utils/resilience.py: CircuitBreaker\<close>

datatype CircuitState = CLOSED | OPEN | HALF_OPEN

record CircuitBreaker =
  failure_threshold :: int
  recovery_timeout :: real
  expected_exception :: "pyexn \<Rightarrow> bool"
  cb_name :: string
  state :: CircuitState
  failure_count :: int
  last_failure_time :: "time option"
  success_count :: int

definition CircuitBreaker_init :: "int \<Rightarrow> real \<Rightarrow> (pyexn \<Rightarrow> bool) \<Rightarrow> string \<Rightarrow> CircuitBreaker" where
  "CircuitBreaker_init thr rt ex nm =
     \<lparr> failure_threshold = thr, recovery_timeout = rt, expected_exception = ex, cb_name = nm,
       state = CLOSED, failure_count = 0, last_failure_time = None, success_count = 0 \<rparr>"

definition on_success :: "CircuitBreaker \<Rightarrow> CircuitBreaker" where
  "on_success cb =
     (let cb1 = cb\<lparr> failure_count := 0, success_count := success_count cb + 1 \<rparr>
      in if state cb1 = HALF_OPEN then cb1\<lparr> state := CLOSED \<rparr> else cb1)"

definition on_failure :: "CircuitBreaker \<Rightarrow> time \<Rightarrow> CircuitBreaker" where
  "on_failure cb now =
     (let cb1 = cb\<lparr> failure_count := failure_count cb + 1, last_failure_time := Some now \<rparr>
      in if failure_count cb1 \<ge> failure_threshold cb1 then cb1\<lparr> state := OPEN \<rparr> else cb1)"

definition should_attempt_reset :: "CircuitBreaker \<Rightarrow> time \<Rightarrow> bool" where
  "should_attempt_reset cb now =
     (case last_failure_time cb of
        None \<Rightarrow> False
      | Some t \<Rightarrow> total_seconds (now - t) \<ge> recovery_timeout cb)"

text \<open>The exception of line 118: \<open>Exception(f"Circuit breaker '{self.name}' is OPEN")\<close>.\<close>

definition circuit_open_exn :: "CircuitBreaker \<Rightarrow> pyexn" where
  "circuit_open_exn cb =
     PyExn ''Exception'' (''Circuit breaker '' @ [CHR 0x27] @ cb_name cb @ [CHR 0x27] @ '' is OPEN'')"

text \<open>
  \<open>call cb now now' func w\<close>: \<open>now\<close> is the clock read by \<open>_should_attempt_reset\<close>,
  \<open>now'\<close> the clock read by \<open>_on_failure\<close> after \<open>func\<close> has raised.
\<close>

definition call :: "CircuitBreaker \<Rightarrow> time \<Rightarrow> time \<Rightarrow> ('a, 'u) callable \<Rightarrow> 'u world
    \<Rightarrow> (pyexn + 'a) \<times> CircuitBreaker \<times> 'u world" where
  "call cb now now' func w =
     (if state cb = OPEN \<and> \<not> should_attempt_reset cb now
      then (Inl (circuit_open_exn cb), cb, w)
      else
        let cb1 = (if state cb = OPEN then cb\<lparr> state := HALF_OPEN \<rparr> else cb)
        in (case func w of
              (Inr r, w') \<Rightarrow> (Inr r, on_success cb1, w')
            | (Inl e, w') \<Rightarrow>
                if expected_exception cb1 e then (Inl e, on_failure cb1 now', w')
                else (Inl e, cb1, w')))"

definition reset :: "CircuitBreaker \<Rightarrow> CircuitBreaker" where
  "reset cb = cb\<lparr> state := CLOSED, failure_count := 0, success_count := 0,
                   last_failure_time := None \<rparr>"

subsection \<open>Sequences of calls\<close>

text \<open>
  One call of the breaker, seen from outside: when it is made, what the wrapped operation
  does if it is invoked, and when a failure is stamped.  The operation counts its own
  invocations in the world.
\<close>

record 'a call_event =
  t_enter :: time
  t_exit :: time
  outcome :: "pyexn + 'a"

definition op_of :: "pyexn + 'a \<Rightarrow> ('a, nat) callable" where
  "op_of r = (\<lambda>w. (r, w\<lparr> app := Suc (app w) \<rparr>))"

definition cb_step :: "CircuitBreaker \<times> nat world \<Rightarrow> 'a call_event \<Rightarrow> CircuitBreaker \<times> nat world" where
  "cb_step s ev =
     (case call (fst s) (t_enter ev) (t_exit ev) (op_of (outcome ev)) (snd s) of
        (r, cb', w') \<Rightarrow> (cb', w'))"

definition cb_run :: "CircuitBreaker \<times> nat world \<Rightarrow> 'a call_event list \<Rightarrow> CircuitBreaker \<times> nat world" where
  "cb_run s evs = foldl cb_step s evs"

definition world0 :: "nat world" where
  "world0 = \<lparr> app = 0, sleeps = [] \<rparr>"

text \<open>
  The relation between the counters and the state that every breaker built by the
  constructor and driven through \<open>call\<close> keeps: it is not closed only after its failure
  count has reached the threshold, and then a failure time is recorded.
\<close>

definition cb_inv :: "CircuitBreaker \<Rightarrow> bool" where
  "cb_inv cb = (state cb \<noteq> CLOSED \<longrightarrow>
                  failure_threshold cb \<le> failure_count cb \<and> last_failure_time cb \<noteq> None)"

section \<open>utils/resilience.py: RetryStrategy and RetryHandler\<close>

definition fixed_delay :: "real \<Rightarrow> int \<Rightarrow> int \<Rightarrow> real" where
  "fixed_delay delay attempt max_att = delay"

definition linear_backoff :: "real \<Rightarrow> real \<Rightarrow> int \<Rightarrow> int \<Rightarrow> real" where
  "linear_backoff base_delay increment attempt max_att =
     base_delay + increment * (real_of_int attempt - 1)"

text \<open>
  \<open>exponential_backoff\<close> draws its jitter from \<open>random.uniform(0, 0.1 * delay)\<close>; the
  draw is the argument \<open>u\<close>, a number of the unit interval.
\<close>

definition exponential_backoff :: "real \<Rightarrow> real \<Rightarrow> real \<Rightarrow> int \<Rightarrow> int \<Rightarrow> real" where
  "exponential_backoff base_delay max_delay u attempt max_att =
     (let delay = min (base_delay * 2 powr (real_of_int attempt - 1)) max_delay;
          jitter = u * (0.1 * delay)
      in delay + jitter)"

record 'u RetryHandler =
  max_attempts :: int
  strategy :: "int \<Rightarrow> int \<Rightarrow> real"
  exceptions :: "pyexn \<Rightarrow> bool"
  on_retry :: "(int \<Rightarrow> real \<Rightarrow> pyexn \<Rightarrow> 'u world \<Rightarrow> (pyexn + unit) \<times> 'u world) option"

text \<open>\<open>time.sleep\<close> refuses a negative length with a \<open>ValueError\<close>.\<close>

definition time_sleep :: "real \<Rightarrow> 'u world \<Rightarrow> (pyexn + unit) \<times> 'u world" where
  "time_sleep d w =
     (if d < 0 then (Inl (PyExn ''ValueError'' ''sleep length must be non-negative''), w)
      else (Inr (), w\<lparr> sleeps := sleeps w @ [d] \<rparr>))"

text \<open>\<open>raise last_exception\<close>: raising \<open>None\<close> is a \<open>TypeError\<close>.\<close>

definition raise_last :: "pyexn option \<Rightarrow> pyexn" where
  "raise_last last_exception =
     (case last_exception of
        None \<Rightarrow> PyExn ''TypeError'' ''exceptions must derive from BaseException''
      | Some e \<Rightarrow> e)"

definition call_on_retry :: "'u RetryHandler \<Rightarrow> int \<Rightarrow> real \<Rightarrow> pyexn \<Rightarrow> 'u world
    \<Rightarrow> (pyexn + unit) \<times> 'u world" where
  "call_on_retry rh attempt delay e w =
     (case on_retry rh of None \<Rightarrow> (Inr (), w) | Some h \<Rightarrow> h attempt delay e w)"

text \<open>
  The body of \<open>wrapper\<close>: the loop \<open>for attempt in range(1, self.max_attempts + 1)\<close>,
  entered at \<open>attempt\<close>.
\<close>

function retry_loop :: "'u RetryHandler \<Rightarrow> ('a, 'u) callable \<Rightarrow> int \<Rightarrow> pyexn option
    \<Rightarrow> 'u world \<Rightarrow> (pyexn + 'a) \<times> 'u world" where
  "retry_loop rh func attempt last_exception w =
     (if max_attempts rh < attempt then (Inl (raise_last last_exception), w)
      else
        (case func w of
           (Inr r, w1) \<Rightarrow> (Inr r, w1)
         | (Inl e, w1) \<Rightarrow>
             if \<not> exceptions rh e then (Inl e, w1)
             else if attempt = max_attempts rh then (Inl e, w1)
             else
               (case call_on_retry rh attempt (strategy rh attempt (max_attempts rh)) e w1 of
                  (Inl e', w2) \<Rightarrow> (Inl e', w2)
                | (Inr u, w2) \<Rightarrow>
                    (case time_sleep (strategy rh attempt (max_attempts rh)) w2 of
                       (Inl e', w3) \<Rightarrow> (Inl e', w3)
                     | (Inr u', w3) \<Rightarrow> retry_loop rh func (attempt + 1) (Some e) w3))))"
  by pat_completeness auto
termination
  by (relation "measure (\<lambda>(rh, func, attempt, last_exception, w). nat (max_attempts rh + 1 - attempt))")
     auto

definition retry_call :: "'u RetryHandler \<Rightarrow> ('a, 'u) callable \<Rightarrow> ('a, 'u) callable" where
  "retry_call rh func = retry_loop rh func 1 None"

text \<open>
  An operation given by what its successive invocations do: the \<open>n\<close>-th invocation
  (from 0) has the outcome \<open>outs n\<close>; the world counts the invocations.
\<close>

definition seq_op :: "(nat \<Rightarrow> pyexn + 'a) \<Rightarrow> ('a, nat) callable" where
  "seq_op outs = (\<lambda>w. (outs (app w), w\<lparr> app := Suc (app w) \<rparr>))"

definition well_behaved :: "'u RetryHandler \<Rightarrow> bool" where
  "well_behaved rh =
     ((\<forall>a. 1 \<le> a \<and> a < max_attempts rh \<longrightarrow> 0 \<le> strategy rh a (max_attempts rh)) \<and>
      (case on_retry rh of
         None \<Rightarrow> True
       | Some h \<Rightarrow> \<forall>a d e w. \<exists>w'. h a d e w = (Inr (), w') \<and> app w' = app w))"

section \<open>utils/resilience.py: FallbackHandler and ResilienceManager\<close>

record ('a, 'u) FallbackHandler =
  fallback_func :: "('a, 'u) callable option"
  fallback_value :: "'a option"

definition fallback_call :: "('a, 'u) FallbackHandler \<Rightarrow> ('a, 'u) callable \<Rightarrow> ('a, 'u) callable" where
  "fallback_call fh func =
     (\<lambda>w. case func w of
             (Inr r, w') \<Rightarrow> (Inr r, w')
           | (Inl e, w') \<Rightarrow>
               (case fallback_func fh of
                  Some g \<Rightarrow> g w'
                | None \<Rightarrow>
                    (case fallback_value fh of
                       Some v \<Rightarrow> (Inr v, w')
                     | None \<Rightarrow> (Inl e, w'))))"

record ('a, 'u) ResilienceManager =
  circuit_breakers :: "string \<rightharpoonup> CircuitBreaker"
  retry_handlers :: "string \<rightharpoonup> 'u RetryHandler"
  fallback_handlers :: "string \<rightharpoonup> ('a, 'u) FallbackHandler"

text \<open>\<open>if name and name in registry\<close>: the name is given, not empty, and registered.\<close>

definition lookup_named :: "(string \<rightharpoonup> 'h) \<Rightarrow> string option \<Rightarrow> 'h option" where
  "lookup_named registry nm =
     (case nm of
        None \<Rightarrow> None
      | Some n \<Rightarrow> if n \<noteq> [] then registry n else None)"

definition resilient_call :: "('a, 'u) ResilienceManager \<Rightarrow> ('a, 'u) callable
    \<Rightarrow> string option \<Rightarrow> string option \<Rightarrow> string option \<Rightarrow> time \<Rightarrow> time \<Rightarrow> 'u world
    \<Rightarrow> (pyexn + 'a) \<times> ('a, 'u) ResilienceManager \<times> 'u world" where
  "resilient_call mgr func circuit_breaker_name retry_handler_name fallback_handler_name now now' w =
     (let func1 = (case lookup_named (fallback_handlers mgr) fallback_handler_name of
                     Some fh \<Rightarrow> fallback_call fh func
                   | None \<Rightarrow> func);
          func2 = (case lookup_named (retry_handlers mgr) retry_handler_name of
                     Some rh \<Rightarrow> retry_call rh func1
                   | None \<Rightarrow> func1)
      in (case lookup_named (circuit_breakers mgr) circuit_breaker_name of
            Some cb \<Rightarrow>
              (case call cb now now' func2 w of
                 (r, cb', w') \<Rightarrow>
                   (r, mgr\<lparr> circuit_breakers :=
                              (circuit_breakers mgr)(the circuit_breaker_name \<mapsto> cb') \<rparr>, w'))
          | None \<Rightarrow> (case func2 w of (r, w') \<Rightarrow> (r, mgr, w'))))"

text \<open>
  The composition the specification describes, with the fallback as the outermost layer
  and the breaker next to the operation; it is compared with \<open>resilient_call\<close> below.
\<close>

definition spec_resilient_call :: "CircuitBreaker \<Rightarrow> 'u RetryHandler \<Rightarrow> ('a, 'u) FallbackHandler
    \<Rightarrow> ('a, 'u) callable \<Rightarrow> time \<Rightarrow> time \<Rightarrow> 'u world \<Rightarrow> (pyexn + 'a) \<times> 'u world" where
  "spec_resilient_call cb rh fh func now now' w =
     fallback_call fh (\<lambda>w0. case call cb now now' (retry_call rh func) w0 of (r, cb', w') \<Rightarrow> (r, w')) w"

section \<open>utils/cache.py\<close>

subsection \<open>OrderedDict\<close>

text \<open>
  An \<open>OrderedDict\<close> is the list of its items in iteration order, oldest first; its keys
  are distinct.
\<close>

type_synonym ('k, 'v) odict = "('k \<times> 'v) list"

definition od_contains :: "'k \<Rightarrow> ('k, 'v) odict \<Rightarrow> bool" where
  "od_contains k od = (map_of od k \<noteq> None)"

definition od_del :: "'k \<Rightarrow> ('k, 'v) odict \<Rightarrow> ('k, 'v) odict" where
  "od_del k od = filter (\<lambda>e. fst e \<noteq> k) od"

definition od_setitem :: "'k \<Rightarrow> 'v \<Rightarrow> ('k, 'v) odict \<Rightarrow> ('k, 'v) odict" where
  "od_setitem k v od =
     (if od_contains k od then map (\<lambda>e. if fst e = k then (k, v) else e) od
      else od @ [(k, v)])"

definition od_move_to_end :: "'k \<Rightarrow> ('k, 'v) odict \<Rightarrow> ('k, 'v) odict" where
  "od_move_to_end k od =
     (case map_of od k of
        None \<Rightarrow> od
      | Some v \<Rightarrow> od_del k od @ [(k, v)])"

subsection \<open>CacheItem and MemoryCache\<close>

record 'v CacheItem =
  item_key :: string
  item_value :: 'v
  created_at :: time
  ttl :: int

definition CacheItem_init :: "string \<Rightarrow> 'v \<Rightarrow> int \<Rightarrow> time \<Rightarrow> 'v CacheItem" where
  "CacheItem_init k v t now = \<lparr> item_key = k, item_value = v, created_at = now, ttl = t \<rparr>"

text \<open>
  \<open>self.created_at + timedelta(seconds=self.ttl)\<close>, the time of expiry; computing it
  raises \<open>OverflowError\<close> for a time to live beyond the range of \<open>timedelta\<close> or of
  \<open>datetime\<close>.
\<close>

definition expiry :: "'v CacheItem \<Rightarrow> pyexn + time" where
  "expiry item =
     (case timedelta_seconds (ttl item) of
        Inl e \<Rightarrow> Inl e
      | Inr d \<Rightarrow> datetime_add (created_at item) d)"

definition is_expired :: "'v CacheItem \<Rightarrow> time \<Rightarrow> pyexn + bool" where
  "is_expired item now =
     (case expiry item of
        Inl e \<Rightarrow> Inl e
      | Inr x \<Rightarrow> Inr (now > x))"

record CacheStats =
  hits :: int
  misses :: int
  sets :: int
  deletes :: int
  expirations :: int

definition stats0 :: CacheStats where
  "stats0 = \<lparr> hits = 0, misses = 0, sets = 0, deletes = 0, expirations = 0 \<rparr>"

record 'v MemoryCache =
  max_size :: int
  default_ttl :: int
  cache :: "(string, 'v CacheItem) odict"
  stats :: CacheStats

definition MemoryCache_init :: "int \<Rightarrow> int \<Rightarrow> 'v MemoryCache" where
  "MemoryCache_init ms dt = \<lparr> max_size = ms, default_ttl = dt, cache = [], stats = stats0 \<rparr>"

text \<open>
  \<open>set\<close>: \<open>next(iter(self.cache))\<close> raises \<open>StopIteration\<close> on an empty dictionary; the
  entry of the key has been deleted by then.
\<close>

definition mc_insert :: "'v MemoryCache \<Rightarrow> string \<Rightarrow> 'v \<Rightarrow> int \<Rightarrow> time \<Rightarrow> 'v MemoryCache" where
  "mc_insert c k v t now =
     c\<lparr> cache := od_move_to_end k (od_setitem k (CacheItem_init k v t now) (cache c)),
        stats := (stats c)\<lparr> sets := sets (stats c) + 1 \<rparr> \<rparr>"

definition mc_set :: "'v MemoryCache \<Rightarrow> string \<Rightarrow> 'v \<Rightarrow> int option \<Rightarrow> time
    \<Rightarrow> (pyexn + unit) \<times> 'v MemoryCache" where
  "mc_set c k v ttl_arg now =
     (let t = (case ttl_arg of None \<Rightarrow> default_ttl c | Some t' \<Rightarrow> t');
          c1 = (if od_contains k (cache c) then c\<lparr> cache := od_del k (cache c) \<rparr> else c)
      in if int (length (cache c1)) \<ge> max_size c1
         then (case cache c1 of
                 [] \<Rightarrow> (Inl (PyExn ''StopIteration'' []), c1)
               | (oldest_key, item) # rest \<Rightarrow>
                   (Inr (), mc_insert (c1\<lparr> cache := od_del oldest_key (cache c1) \<rparr>) k v t now))
         else (Inr (), mc_insert c1 k v t now))"

text \<open>
  \<open>get\<close>: when \<open>is_expired\<close> raises, the exception leaves \<open>get\<close> before any counter
  or entry has changed.
\<close>

definition mc_get :: "'v MemoryCache \<Rightarrow> string \<Rightarrow> 'v \<Rightarrow> time \<Rightarrow> (pyexn + 'v) \<times> 'v MemoryCache" where
  "mc_get c k dflt now =
     (case map_of (cache c) k of
        None \<Rightarrow> (Inr dflt, c\<lparr> stats := (stats c)\<lparr> misses := misses (stats c) + 1 \<rparr> \<rparr>)
      | Some item \<Rightarrow>
          (case is_expired item now of
             Inl e \<Rightarrow> (Inl e, c)
           | Inr True \<Rightarrow>
               (Inr dflt, c\<lparr> cache := od_del k (cache c),
                             stats := (stats c)\<lparr> expirations := expirations (stats c) + 1,
                                                misses := misses (stats c) + 1 \<rparr> \<rparr>)
           | Inr False \<Rightarrow>
               (Inr (item_value item),
                c\<lparr> cache := od_move_to_end k (cache c),
                   stats := (stats c)\<lparr> hits := hits (stats c) + 1 \<rparr> \<rparr>)))"

definition mc_delete :: "'v MemoryCache \<Rightarrow> string \<Rightarrow> bool \<times> 'v MemoryCache" where
  "mc_delete c k =
     (if od_contains k (cache c)
      then (True, c\<lparr> cache := od_del k (cache c),
                     stats := (stats c)\<lparr> deletes := deletes (stats c) + 1 \<rparr> \<rparr>)
      else (False, c))"

definition mc_clear :: "'v MemoryCache \<Rightarrow> 'v MemoryCache" where
  "mc_clear c = c\<lparr> cache := [], stats := stats0 \<rparr>"

text \<open>
  The list comprehension of \<open>cleanup_expired\<close>: the keys of the expired entries, in
  order; the first entry whose \<open>is_expired\<close> raises ends it, before anything is deleted.
\<close>

fun expired_keys :: "(string, 'v CacheItem) odict \<Rightarrow> time \<Rightarrow> pyexn + string list" where
  "expired_keys [] now = Inr []"
| "expired_keys ((k, item) # od) now =
     (case is_expired item now of
        Inl e \<Rightarrow> Inl e
      | Inr b \<Rightarrow>
          (case expired_keys od now of
             Inl e \<Rightarrow> Inl e
           | Inr ks \<Rightarrow> Inr (if b then k # ks else ks)))"

definition mc_cleanup_expired :: "'v MemoryCache \<Rightarrow> time \<Rightarrow> (pyexn + int) \<times> 'v MemoryCache" where
  "mc_cleanup_expired c now =
     (case expired_keys (cache c) now of
        Inl e \<Rightarrow> (Inl e, c)
      | Inr ks \<Rightarrow>
          (Inr (int (length ks)),
           c\<lparr> cache := foldl (\<lambda>od k. od_del k od) (cache c) ks,
              stats := (stats c)\<lparr> expirations := expirations (stats c) + int (length ks) \<rparr> \<rparr>))"

definition mc_keys :: "'v MemoryCache \<Rightarrow> time \<Rightarrow> (pyexn + string list) \<times> 'v MemoryCache" where
  "mc_keys c now =
     (case mc_cleanup_expired c now of
        (Inl e, c') \<Rightarrow> (Inl e, c')
      | (Inr n, c') \<Rightarrow> (Inr (map fst (cache c')), c'))"

definition mc_exists :: "'v MemoryCache \<Rightarrow> string \<Rightarrow> time \<Rightarrow> (pyexn + bool) \<times> 'v MemoryCache" where
  "mc_exists c k now =
     (case map_of (cache c) k of
        None \<Rightarrow> (Inr False, c)
      | Some item \<Rightarrow>
          (case is_expired item now of
             Inl e \<Rightarrow> (Inl e, c)
           | Inr True \<Rightarrow> (Inr False, c\<lparr> cache := od_del k (cache c) \<rparr>)
           | Inr False \<Rightarrow> (Inr True, c)))"

subsection \<open>Sequences of cache operations\<close>

datatype 'v cache_op =
    Set string 'v "int option" time
  | Get string 'v time
  | Delete string
  | Clear
  | CleanupExpired time
  | Keys time
  | Exists string time

fun mc_step :: "'v MemoryCache \<Rightarrow> 'v cache_op \<Rightarrow> 'v MemoryCache" where
  "mc_step c (Set k v t now) = snd (mc_set c k v t now)"
| "mc_step c (Get k d now) = snd (mc_get c k d now)"
| "mc_step c (Delete k) = snd (mc_delete c k)"
| "mc_step c Clear = mc_clear c"
| "mc_step c (CleanupExpired now) = snd (mc_cleanup_expired c now)"
| "mc_step c (Keys now) = snd (mc_keys c now)"
| "mc_step c (Exists k now) = snd (mc_exists c k now)"

definition mc_run :: "'v MemoryCache \<Rightarrow> 'v cache_op list \<Rightarrow> 'v MemoryCache" where
  "mc_run c ops = foldl mc_step c ops"

text \<open>
  An operation that raises leaves the state as it is at the raise. The key an operation
  uses, if it uses one: the key of a \<open>set\<close>, and the key of a \<open>get\<close> that hits.
  \<open>touch_log\<close> lists the keys used by a sequence of operations, the latest last.
\<close>

fun touched :: "'v MemoryCache \<Rightarrow> 'v cache_op \<Rightarrow> string list" where
  "touched c (Set k v t now) = [k]"
| "touched c (Get k d now) =
     (case map_of (cache c) k of
        None \<Rightarrow> []
      | Some item \<Rightarrow> if is_expired item now = Inr False then [k] else [])"
| "touched c other = []"

fun touch_log :: "'v MemoryCache \<Rightarrow> 'v cache_op list \<Rightarrow> string list" where
  "touch_log c [] = []"
| "touch_log c (x # xs) = touched c x @ touch_log (mc_step c x) xs"

text \<open>
  \<open>remdups\<close> keeps the last occurrence of every element, so \<open>remdups log\<close> lists the
  keys of a log in the order of their last use, the least recently used first.
\<close>

definition lru_order :: "'v MemoryCache \<Rightarrow> 'v cache_op list \<Rightarrow> string list" where
  "lru_order c ops =
     filter (\<lambda>k. od_contains k (cache (mc_run c ops))) (remdups (touch_log c ops))"

subsection \<open>PersistentCache and Cache\<close>

text \<open>
  The pickle file holds, per key, what \<open>to_dict\<close> wrote: a value, a creation time and a
  time to live; an entry of the file may also be something else (\<open>NotAnItem\<close>), or
  lack its creation time or its time to live.
\<close>

datatype 'v item_data = NotAnItem | ItemData 'v "time option" "int option"

type_synonym 'v snapshot = "(string \<times> 'v item_data) list"

record 'v PersistentCache =
  pc_memory_cache :: "'v MemoryCache"

text \<open>
  \<open>_load_persistent_cache\<close>, from the entries of the file on: every entry that has not
  expired is written into the dictionary of the memory cache, directly, with no look
  at \<open>max_size\<close>. A creation time that is missing or not readable (\<open>KeyError\<close>,
  \<open>ValueError\<close>) or an \<open>is_expired\<close> that raises ends the loop in the handler of the
  method, which keeps what has been loaded.
\<close>

fun load_entries :: "'v MemoryCache \<Rightarrow> 'v snapshot \<Rightarrow> time \<Rightarrow> 'v MemoryCache" where
  "load_entries m [] now = m"
| "load_entries m ((k, NotAnItem) # rest) now = load_entries m rest now"
| "load_entries m ((k, ItemData v None t) # rest) now = m"
| "load_entries m ((k, ItemData v (Some created) t) # rest) now =
     (let item = \<lparr> item_key = k, item_value = v, created_at = created,
                    ttl = (case t of None \<Rightarrow> default_ttl m | Some t' \<Rightarrow> t') \<rparr>
      in (case is_expired item now of
            Inl e \<Rightarrow> m
          | Inr True \<Rightarrow> load_entries m rest now
          | Inr False \<Rightarrow> load_entries (m\<lparr> cache := od_setitem k item (cache m) \<rparr>) rest now))"

text \<open>The constructor; \<open>file\<close> is the content of the pickle file, if the file exists.\<close>

definition PersistentCache_init :: "int \<Rightarrow> int \<Rightarrow> 'v snapshot option \<Rightarrow> time \<Rightarrow> 'v PersistentCache" where
  "PersistentCache_init ms dt file now =
     \<lparr> pc_memory_cache =
         (case file of
            None \<Rightarrow> MemoryCache_init ms dt
          | Some entries \<Rightarrow> load_entries (MemoryCache_init ms dt) entries now) \<rparr>"

text \<open>
  \<open>PersistentCache.set\<close> and \<open>get\<close> act on the memory cache; \<open>set\<close> then writes the
  file, which no later step of the model reads.
\<close>

definition pc_set :: "'v PersistentCache \<Rightarrow> string \<Rightarrow> 'v \<Rightarrow> int option \<Rightarrow> time
    \<Rightarrow> (pyexn + unit) \<times> 'v PersistentCache" where
  "pc_set p k v ttl_arg now =
     (case mc_set (pc_memory_cache p) k v ttl_arg now of
        (r, m') \<Rightarrow> (r, p\<lparr> pc_memory_cache := m' \<rparr>))"

definition pc_get :: "'v PersistentCache \<Rightarrow> string \<Rightarrow> 'v \<Rightarrow> time \<Rightarrow> (pyexn + 'v) \<times> 'v PersistentCache" where
  "pc_get p k dflt now =
     (case mc_get (pc_memory_cache p) k dflt now of
        (r, m') \<Rightarrow> (r, p\<lparr> pc_memory_cache := m' \<rparr>))"

text \<open>
  The values of the composite \<open>Cache\<close> are Python objects, of which \<open>None\<close> is one:
  \<open>'v option\<close>. \<open>now\<close> is the clock of the memory tier's lookup, \<open>now'\<close> that of the
  persistent tier's.
\<close>

record 'v Cache =
  memory_cache :: "'v option MemoryCache"
  persistent_cache :: "'v option PersistentCache"

definition Cache_get :: "'v Cache \<Rightarrow> string \<Rightarrow> 'v option \<Rightarrow> time \<Rightarrow> time
    \<Rightarrow> (pyexn + 'v option) \<times> 'v Cache" where
  "Cache_get c k dflt now now' =
     (case mc_get (memory_cache c) k None now of
        (Inl e, m') \<Rightarrow> (Inl e, c\<lparr> memory_cache := m' \<rparr>)
      | (Inr v, m') \<Rightarrow>
          if v \<noteq> None then (Inr v, c\<lparr> memory_cache := m' \<rparr>)
          else (case pc_get (persistent_cache c) k dflt now' of
                  (r, p') \<Rightarrow> (r, c\<lparr> memory_cache := m', persistent_cache := p' \<rparr>)))"

section \<open>utils/alerts.py\<close>

datatype AlertSeverity = INFO | WARNING | ERROR | CRITICAL

datatype AlertChannel = EMAIL | SLACK | WEBHOOK | SMS | DASHBOARD

















section \<open>utils/anomaly_detector.py\<close>

subsection \<open>The numpy reductions, on real numbers\<close>

text \<open>
  The series are lists of real numbers; the rounding of the 64-bit floats of numpy is
  not modelled. \<open>np.std\<close> is the population standard deviation, \<open>np.percentile\<close>
  interpolates linearly between the two nearest ranks.
\<close>

definition np_mean :: "real list \<Rightarrow> real" where
  "np_mean xs = sum_list xs / real (length xs)"

definition np_var :: "real list \<Rightarrow> real" where
  "np_var xs = np_mean (map (\<lambda>x. (x - np_mean xs)\<^sup>2) xs)"

definition np_std :: "real list \<Rightarrow> real" where
  "np_std xs = sqrt (np_var xs)"

definition np_min :: "real list \<Rightarrow> real" where
  "np_min xs = Min (set xs)"

definition np_max :: "real list \<Rightarrow> real" where
  "np_max xs = Max (set xs)"

definition np_percentile :: "real list \<Rightarrow> real \<Rightarrow> real" where
  "np_percentile xs q =
     (let s = sort xs;
          pos = q / 100 * (real (length xs) - 1);
          lo = nat \<lfloor>pos\<rfloor>;
          hi = min (lo + 1) (length xs - 1)
      in s ! lo + (pos - real lo) * (s ! hi - s ! lo))"

definition np_median :: "real list \<Rightarrow> real" where
  "np_median xs =
     (let s = sort xs; n = length xs
      in if odd n then s ! (n div 2) else (s ! (n div 2 - 1) + s ! (n div 2)) / 2)"

subsection \<open>Results and the z-score detector\<close>

record AnomalyResult =
  ar_timestamp :: time
  metric_name :: string
  ar_value :: real
  is_anomaly :: bool
  anomaly_score :: real
  algorithm :: string
  confidence :: real
  ar_threshold :: real
  ar_context :: "(string \<times> real) list"




subsection \<open>Feature construction and the model-based path\<close>

text \<open>
  The window size is a natural number. A window of size 0 is empty and \<open>np.min\<close> of an
  empty array raises a \<open>ValueError\<close>.
\<close>

definition feature_vector :: "real list \<Rightarrow> nat \<Rightarrow> nat \<Rightarrow> real list" where
  "feature_vector data window_size i =
     (let window = take window_size (drop (i - window_size) data)
      in [np_mean window, np_std window, np_min window, np_max window, np_median window,
          np_percentile window 25, np_percentile window 75, data ! i])"

definition prepare_features :: "real list \<Rightarrow> nat \<Rightarrow> pyexn + real list list" where
  "prepare_features data window_size =
     (if length data < window_size then Inr (map (\<lambda>x. [x]) data)
      else if window_size = 0 \<and> data \<noteq> []
      then Inl (PyExn ''ValueError''
                  ''zero-size array to reduction operation minimum which has no identity'')
      else Inr (map (feature_vector data window_size) [window_size..<length data]))"

text \<open>
  A trained model is known by the interface the detector probes with \<open>hasattr\<close>:
  \<open>predict\<close> (applied to a row it gives a label, or raises), \<open>score_samples\<close>, or
  neither.
\<close>

datatype ml_model =
    Predict "real list \<Rightarrow> pyexn + int"
  | ScoreSamples "real list \<Rightarrow> real"
  | Neither

definition ml_results :: "string \<Rightarrow> string \<Rightarrow> real list \<Rightarrow> nat \<Rightarrow> real \<Rightarrow> time \<Rightarrow> real list
    \<Rightarrow> AnomalyResult list" where
  "ml_results metric alg data window_size thr now anomaly_scores =
     map (\<lambda>i. \<lparr> ar_timestamp = now, metric_name = metric,
                ar_value = data ! (window_size + i),
                is_anomaly = True,
                anomaly_score = anomaly_scores ! i,
                algorithm = alg,
                confidence = anomaly_scores ! i,
                ar_threshold = thr,
                ar_context = [(''window_size'', real window_size), (''feature_index'', real i)] \<rparr>)
         (filter (\<lambda>i. anomaly_scores ! i > thr \<and> window_size + i < length data)
                 [0..<length anomaly_scores])"

text \<open>
  \<open>fallback\<close> is what \<open>_detect_with_statistical_methods\<close> returns for the same series;
  the model-based path hands over to it when the model has neither interface and when
  anything raises. Scores that are all equal normalise to \<open>nan\<close>, which is above no
  threshold.
\<close>

definition detect_with_ml_model :: "ml_model \<Rightarrow> string \<Rightarrow> string \<Rightarrow> real list \<Rightarrow> nat \<Rightarrow> real
    \<Rightarrow> time \<Rightarrow> AnomalyResult list \<Rightarrow> AnomalyResult list" where
  "detect_with_ml_model model metric alg data window_size thr now fallback =
     (case prepare_features data window_size of
        Inl e \<Rightarrow> fallback
      | Inr X \<Rightarrow>
          if X = [] then []
          else
            (case model of
               Predict f \<Rightarrow>
                 if \<exists>x \<in> set X. isl (f x) then fallback
                 else ml_results metric alg data window_size thr now
                        (map (\<lambda>x. if projr (f x) = - 1 then 1 else 0) X)
             | ScoreSamples g \<Rightarrow>
                 (let scores = map g X; lo = Min (set scores); hi = Max (set scores)
                  in if hi = lo then []
                     else ml_results metric alg data window_size thr now
                            (map (\<lambda>v. 1 - (v - lo) / (hi - lo)) scores))
             | Neither \<Rightarrow> fallback))"

text \<open>The positions of the series whose value the model-based path can report.\<close>

definition scored_positions :: "real list \<Rightarrow> nat \<Rightarrow> nat set" where
  "scored_positions data window_size =
     (case prepare_features data window_size of
        Inl e \<Rightarrow> {}
      | Inr X \<Rightarrow> {window_size + i | i. i < length X \<and> window_size + i < length data})"

section \<open>Concrete inputs\<close>

text \<open>
  A breaker that counts only transient failures, and the breaker and the failing
  operation of the module's own \<open>main\<close>.
\<close>

definition ex_transient :: "pyexn \<Rightarrow> bool" where
  "ex_transient e = (exn_class e = ''TransientDependencyError'')"

definition ev_at :: "time \<Rightarrow> pyexn + unit \<Rightarrow> unit call_event" where
  "ev_at t out = \<lparr> t_enter = t, t_exit = t, outcome = out \<rparr>"

definition cb_example :: CircuitBreaker where
  "cb_example = CircuitBreaker_init 1 60 ex_transient ''api''"

definition transient_failure :: "pyexn + unit" where
  "transient_failure = Inl (PyExn ''TransientDependencyError'' ''timeout'')"

definition permanent_failure :: "pyexn + unit" where
  "permanent_failure = Inl (PyExn ''PermanentError'' ''bad request'')"

definition demo_cb :: CircuitBreaker where
  "demo_cb = CircuitBreaker_init 3 5 (\<lambda>e. True) ''test_cb''"

definition demo_failure :: "pyexn + unit" where
  "demo_failure = Inl (PyExn ''Exception'' ''Falha simulada!'')"

text \<open>
  The invocation at which the retry loop ends: the operation returns, or raises an
  exception that is not retried, or it is the last attempt.
\<close>

definition stops_at :: "'u RetryHandler \<Rightarrow> (nat \<Rightarrow> pyexn + 'a) \<Rightarrow> nat \<Rightarrow> bool" where
  "stops_at rh outs k =
     (case outs k of
        Inr v \<Rightarrow> True
      | Inl e \<Rightarrow> \<not> exceptions rh e \<or> int k = max_attempts rh - 1)"


text \<open>
  The retry handler and the operation of the module's \<open>main\<close>, with the operation
  failing twice; and the resilience set-up of \<open>integrated_system.py\<close> with a provider
  that is always down (threshold 1 and no delay, to keep the runs short).
\<close>

definition retry_example :: "nat RetryHandler" where
  "retry_example = \<lparr> max_attempts = 3, strategy = fixed_delay 0.1, exceptions = (\<lambda>e. True),
                      on_retry = None \<rparr>"

definition fails_twice :: "nat \<Rightarrow> pyexn + string" where
  "fails_twice i = (if i < 2 then Inl (PyExn ''Exception'' ''Falha simulada'') else Inr ''Sucesso!'')"

definition always_down :: "(string, nat) callable" where
  "always_down = seq_op (\<lambda>i. Inl (PyExn ''TransientDependencyError'' ''provider down''))"

definition network_retry :: "nat RetryHandler" where
  "network_retry = \<lparr> max_attempts = 3, strategy = fixed_delay 0, exceptions = (\<lambda>e. True),
                      on_retry = None \<rparr>"

definition cache_fallback :: "(string, nat) FallbackHandler" where
  "cache_fallback = \<lparr> fallback_func = None, fallback_value = Some ''last_collected_data'' \<rparr>"

definition demo_manager :: "(string, nat) ResilienceManager" where
  "demo_manager =
     \<lparr> circuit_breakers = [''external_api'' \<mapsto> CircuitBreaker_init 1 300 (\<lambda>e. True) ''external_api''],
       retry_handlers = [''network_operations'' \<mapsto> network_retry],
       fallback_handlers = [''cache_fallback'' \<mapsto> cache_fallback] \<rparr>"

text \<open>The manager after one call without a fallback at time 0, which opens the breaker.\<close>

definition opened_manager :: "(string, nat) ResilienceManager" where
  "opened_manager =
     fst (snd (resilient_call demo_manager always_down (Some ''external_api'')
                 (Some ''network_operations'') None 0 0 world0))"

section \<open>Auxiliary notions and inputs for the cache\<close>

text \<open>
  The time to live a \<open>set\<close> uses and the entry it stores; what the dictionary holds
  after a \<open>set\<close> into a cache of positive capacity; the condition under which the
  operations of \<open>MemoryCache\<close> keep the cache within its capacity.
\<close>

definition ttl_or_default :: "'v MemoryCache \<Rightarrow> int option \<Rightarrow> int" where
  "ttl_or_default c ttl_arg = (case ttl_arg of None \<Rightarrow> default_ttl c | Some t \<Rightarrow> t)"

definition stored :: "'v MemoryCache \<Rightarrow> string \<Rightarrow> 'v \<Rightarrow> int option \<Rightarrow> time \<Rightarrow> 'v CacheItem" where
  "stored c k v ttl_arg now = CacheItem_init k v (ttl_or_default c ttl_arg) now"

definition after_set :: "'v MemoryCache \<Rightarrow> string \<Rightarrow> 'v \<Rightarrow> int option \<Rightarrow> time \<Rightarrow> (string, 'v CacheItem) odict" where
  "after_set c k v ttl_arg now =
     (let od1 = od_del k (cache c)
      in (if max_size c \<le> int (length od1) then tl od1 else od1) @ [(k, stored c k v ttl_arg now)])"

definition mc_inv :: "'v MemoryCache \<Rightarrow> bool" where
  "mc_inv c = (distinct (map fst (cache c)) \<and> int (length (cache c)) \<le> max_size c \<and> 0 < max_size c)"

text \<open>
  Between a \<open>set\<close> of \<open>k\<close> and a later \<open>get\<close> of \<open>k\<close>: an operation that does not by
  itself replace or delete the entry of \<open>k\<close> (\<open>keeps_entry\<close>); an operation that
  happens no later than \<open>x\<close> (\<open>no_later\<close>); an operation that makes another key more
  recently used than \<open>k\<close> (\<open>uses_other\<close>). \<open>entry_at k item n od\<close>: the dictionary
  has the entry \<open>item\<close> for \<open>k\<close>, no other entry for \<open>k\<close>, and at most \<open>n\<close> entries
  after it.
\<close>

fun keeps_entry :: "string \<Rightarrow> 'v cache_op \<Rightarrow> bool" where
  "keeps_entry k (Set j v t now) = (j \<noteq> k)"
| "keeps_entry k (Delete j) = (j \<noteq> k)"
| "keeps_entry k Clear = False"
| "keeps_entry k other = True"

fun no_later :: "time \<Rightarrow> 'v cache_op \<Rightarrow> bool" where
  "no_later x (Set j v t now) = (now \<le> x)"
| "no_later x (Get j d now) = (now \<le> x)"
| "no_later x (CleanupExpired now) = (now \<le> x)"
| "no_later x (Keys now) = (now \<le> x)"
| "no_later x (Exists j now) = (now \<le> x)"
| "no_later x other = True"

fun uses_other :: "string \<Rightarrow> 'v cache_op \<Rightarrow> bool" where
  "uses_other k (Set j v t now) = (j \<noteq> k)"
| "uses_other k (Get j d now) = (j \<noteq> k)"
| "uses_other k other = False"

definition entry_at :: "string \<Rightarrow> 'v \<Rightarrow> nat \<Rightarrow> (string, 'v) odict \<Rightarrow> bool" where
  "entry_at k item n od =
     (\<exists>pre post. od = pre @ (k, item) # post \<and> k \<notin> fst ` set pre \<and> k \<notin> fst ` set post \<and>
                 length post \<le> n)"

text \<open>An entry that stores \<open>None\<close> and whose \<open>is_expired\<close> does not raise.\<close>

definition holds_none :: "'v option MemoryCache \<Rightarrow> string \<Rightarrow> time \<Rightarrow> bool" where
  "holds_none m k now =
     (\<exists>item. map_of (cache m) k = Some item \<and> item_value item = None \<and> \<not> isl (is_expired item now))"

text \<open>
  Inputs: a run at capacity 2; the cache of the module's \<open>main\<close> after its first
  \<open>set\<close>; two caches that store \<open>None\<close> and 7 under the same key; and a pickle file
  with three live entries, as a cache of greater capacity leaves it in the shared
  directory \<open>cache\<close>.
\<close>

definition lru_example_ops :: "nat cache_op list" where
  "lru_example_ops = [Set ''a'' 1 None 0, Set ''b'' 2 None 1000000, Get ''a'' 0 2000000]"

definition ttl_example :: "string MemoryCache" where
  "ttl_example = snd (mc_set (MemoryCache_init 5 10) ''test1'' ''valor1'' (Some 5) 0)"

definition main_ops :: "string cache_op list" where
  "main_ops = [Set ''test2'' ''valor2'' (Some 15) 1000000, Set ''test3'' ''valor3'' (Some 20) 2000000,
               Get ''test2'' [] 3000000]"

definition none_example :: "nat option MemoryCache" where
  "none_example = snd (mc_set (MemoryCache_init 5 10) ''k'' None (Some 5) 0)"

definition seven_example :: "nat option MemoryCache" where
  "seven_example = snd (mc_set (MemoryCache_init 5 10) ''k'' (Some 7) (Some 5) 0)"

definition three_entries :: "nat snapshot" where
  "three_entries =
     [(''a'', ItemData 1 (Some 0) (Some 3600)),
      (''b'', ItemData 2 (Some 0) (Some 3600)),
      (''c'', ItemData 3 (Some 0) (Some 3600))]"

definition loaded_example :: "nat PersistentCache" where
  "loaded_example = PersistentCache_init 1 3600 (Some three_entries) 1000000"

section \<open>Auxiliary notions and inputs for the alerts\<close>







section \<open>Inputs for the anomaly detector\<close>


definition five_points :: "real list" where
  "five_points = [1, 2, 3, 4, 5]"

section \<open>The circuit breaker as a state machine\<close>

lemmas cb_eval = cb_run_def cb_step_def call_def op_of_def on_failure_def on_success_def
  should_attempt_reset_def total_seconds_def CircuitBreaker_init_def world0_def ex_transient_def
  ev_at_def cb_example_def transient_failure_def permanent_failure_def demo_cb_def
  demo_failure_def circuit_open_exn_def Let_def

lemma call_config:
  assumes "call cb now now' func w = (r, cb', w')"
  shows "failure_threshold cb' = failure_threshold cb \<and> recovery_timeout cb' = recovery_timeout cb
       \<and> expected_exception cb' = expected_exception cb \<and> cb_name cb' = cb_name cb"
  using assms
  by (auto simp: call_def on_success_def on_failure_def Let_def split: if_splits prod.splits sum.splits)

lemma call_inv:
  assumes "call cb now now' func w = (r, cb', w')" and "cb_inv cb"
  shows "cb_inv cb'"
  using assms
  by (cases "state cb")
     (auto simp: call_def on_success_def on_failure_def Let_def cb_inv_def split: if_splits prod.splits sum.splits)

lemma cb_run_snoc: "cb_run s (evs @ [ev]) = cb_step (cb_run s evs) ev"
  by (simp add: cb_run_def)

lemma cb_run_keeps:
  "cb_inv (fst s) \<Longrightarrow>
   cb_inv (fst (cb_run s evs)) \<and>
   failure_threshold (fst (cb_run s evs)) = failure_threshold (fst s) \<and>
   recovery_timeout (fst (cb_run s evs)) = recovery_timeout (fst s) \<and>
   expected_exception (fst (cb_run s evs)) = expected_exception (fst s)"
proof (induction evs rule: rev_induct)
  case Nil
  then show ?case by (simp add: cb_run_def)
next
  case (snoc ev evs)
  obtain cb w where s: "cb_run s evs = (cb, w)" by (cases "cb_run s evs")
  obtain r cb' w' where c: "call cb (t_enter ev) (t_exit ev) (op_of (outcome ev)) w = (r, cb', w')"
    by (cases "call cb (t_enter ev) (t_exit ev) (op_of (outcome ev)) w")
  from snoc s have "cb_inv cb" by simp
  with c have "cb_inv cb'" by (rule call_inv)
  with s c call_config[OF c] snoc show ?case by (simp add: cb_run_snoc cb_step_def)
qed

lemma init_inv: "cb_inv (CircuitBreaker_init thr rt ex nm)"
  by (simp add: cb_inv_def CircuitBreaker_init_def)

lemma cb_run_init:
  assumes "cb_run (CircuitBreaker_init thr rt ex nm, world0) evs = (cb, w)"
  shows "cb_inv cb \<and> failure_threshold cb = thr \<and> recovery_timeout cb = rt \<and>
         expected_exception cb = ex"
proof -
  have "cb_inv (fst (CircuitBreaker_init thr rt ex nm, world0))" by (simp add: init_inv)
  from cb_run_keeps[OF this, of evs] assms show ?thesis
    by (simp add: CircuitBreaker_init_def)
qed

lemma call_closed_failure:
  assumes "call cb now now' (op_of (Inl e)) w = (r, cb', w')" "state cb = CLOSED" "expected_exception cb e"
  shows "r = Inl e \<and> app w' = Suc (app w) \<and> failure_count cb' = failure_count cb + 1 \<and>
         state cb' = (if failure_threshold cb \<le> failure_count cb' then OPEN else CLOSED)"
  using assms by (auto simp: call_def on_failure_def op_of_def Let_def split: if_splits)

lemma call_open_fast:
  assumes "call cb now now' func w = (r, cb', w')" "state cb = OPEN" "\<not> should_attempt_reset cb now"
  shows "r = Inl (circuit_open_exn cb) \<and> cb' = cb \<and> w' = w"
  using assms by (auto simp: call_def)

lemma call_trial:
  assumes "call cb now now' (op_of out) w = (r, cb', w')"
    and "state cb = HALF_OPEN \<or> (state cb = OPEN \<and> should_attempt_reset cb now)"
    and "cb_inv cb"
  shows "r = out \<and> app w' = Suc (app w) \<and>
         (case out of
            Inr v \<Rightarrow> state cb' = CLOSED \<and> failure_count cb' = 0
          | Inl e \<Rightarrow> state cb' = (if expected_exception cb e then OPEN else HALF_OPEN))"
  using assms
  by (auto simp: call_def on_success_def on_failure_def op_of_def Let_def cb_inv_def split: if_splits sum.splits)

lemma consecutive_failures:
  assumes "\<forall>ev \<in> set fs. \<exists>e. outcome ev = Inl e \<and> ex e" and "int (length fs) \<le> thr"
  shows "failure_count (fst (cb_run (CircuitBreaker_init thr rt ex nm, world0) fs)) = int (length fs) \<and>
         app (snd (cb_run (CircuitBreaker_init thr rt ex nm, world0) fs)) = length fs \<and>
         state (fst (cb_run (CircuitBreaker_init thr rt ex nm, world0) fs)) =
           (if fs \<noteq> [] \<and> int (length fs) = thr then OPEN else CLOSED)"
  using assms
proof (induction fs rule: rev_induct)
  case Nil
  then show ?case by (simp add: cb_run_def CircuitBreaker_init_def world0_def)
next
  case (snoc ev fs)
  let ?s0 = "(CircuitBreaker_init thr rt ex nm, world0)"
  obtain cb w where s: "cb_run ?s0 fs = (cb, w)" by (cases "cb_run ?s0 fs")
  obtain e where e: "outcome ev = Inl e" "ex e" using snoc.prems by auto
  from snoc s have ih: "failure_count cb = int (length fs)" "app w = length fs" "state cb = CLOSED"
    by auto
  have cfg: "failure_threshold cb = thr" "expected_exception cb = ex"
    using cb_run_init[OF s] by simp_all
  obtain r cb' w' where c0: "call cb (t_enter ev) (t_exit ev) (op_of (outcome ev)) w = (r, cb', w')"
    by (metis prod_cases3)
  then have c: "call cb (t_enter ev) (t_exit ev) (op_of (Inl e)) w = (r, cb', w')"
    using e(1) by simp
  from call_closed_failure[OF c ih(3)] cfg e
  have "failure_count cb' = failure_count cb + 1" "app w' = Suc (app w)"
       "state cb' = (if thr \<le> failure_count cb' then OPEN else CLOSED)" by auto
  with s c0 ih snoc.prems(2) show ?case
    by (auto simp: cb_run_snoc cb_step_def)
qed

text \<open>
  Claim C1, as the code has it. Let \<open>cb\<close> be the breaker after any sequence of calls
  from its construction, and consider the next call.
  \<^item> Closed, and the operation raises an expected exception: the operation has run, the
    failure count grows by one, and the breaker is open exactly if the count has reached
    the threshold.
  \<^item> Open, recovery timeout not elapsed: the call raises the breaker's own exception, the
    operation is not invoked and the breaker is unchanged.
  \<^item> Open, and the operation is invoked: then the recovery timeout has elapsed since the
    last failure.
  \<^item> Half-open, or open with the timeout elapsed: the operation is invoked once. Its
    success closes the breaker and resets the failure count; an expected exception opens
    the breaker again; an exception outside the expected set leaves the breaker half-open.
  \<^item> From a new breaker, \<open>failure_threshold\<close> consecutive expected failures, and no
    fewer, open it, each of them invoking the operation.
\<close>

theorem circuit_breaker_transitions:
  assumes run: "cb_run (CircuitBreaker_init thr rt ex nm, world0) evs = (cb, w)"
      and step: "call cb (t_enter ev) (t_exit ev) (op_of (outcome ev)) w = (r, cb', w')"
  shows "(state cb = CLOSED \<and> (\<exists>e. outcome ev = Inl e \<and> ex e) \<longrightarrow>
            app w' = Suc (app w) \<and> failure_count cb' = failure_count cb + 1 \<and>
            state cb' = (if thr \<le> failure_count cb' then OPEN else CLOSED))
       \<and> (state cb = OPEN \<and> \<not> should_attempt_reset cb (t_enter ev) \<longrightarrow>
            r = Inl (circuit_open_exn cb) \<and> cb' = cb \<and> w' = w)
       \<and> (state cb = OPEN \<and> app w' \<noteq> app w \<longrightarrow>
            (\<exists>t. last_failure_time cb = Some t \<and> rt \<le> total_seconds (t_enter ev - t)))
       \<and> (state cb = HALF_OPEN \<or> state cb = OPEN \<and> should_attempt_reset cb (t_enter ev) \<longrightarrow>
            r = outcome ev \<and> app w' = Suc (app w) \<and>
            (case outcome ev of
               Inr v \<Rightarrow> state cb' = CLOSED \<and> failure_count cb' = 0
             | Inl e \<Rightarrow> state cb' = (if ex e then OPEN else HALF_OPEN)))
       \<and> ((\<forall>f \<in> set fs. \<exists>e. outcome f = Inl e \<and> ex e) \<and> int (length fs) \<le> thr \<longrightarrow>
            app (snd (cb_run (CircuitBreaker_init thr rt ex nm, world0) fs)) = length fs \<and>
            state (fst (cb_run (CircuitBreaker_init thr rt ex nm, world0) fs)) =
              (if fs \<noteq> [] \<and> int (length fs) = thr then OPEN else CLOSED))"
proof -
  let ?s0 = "(CircuitBreaker_init thr rt ex nm, world0)"
  have keeps: "cb_inv cb" "failure_threshold cb = thr" "expected_exception cb = ex"
    "recovery_timeout cb = rt"
    using cb_run_init[OF run] by simp_all
  have A: "state cb = CLOSED \<and> (\<exists>e. outcome ev = Inl e \<and> ex e) \<longrightarrow>
            app w' = Suc (app w) \<and> failure_count cb' = failure_count cb + 1 \<and>
            state cb' = (if thr \<le> failure_count cb' then OPEN else CLOSED)"
    using call_closed_failure step keeps by metis
  have B: "state cb = OPEN \<and> \<not> should_attempt_reset cb (t_enter ev) \<longrightarrow>
            r = Inl (circuit_open_exn cb) \<and> cb' = cb \<and> w' = w"
    using call_open_fast[OF step] by simp
  have C: "state cb = OPEN \<and> app w' \<noteq> app w \<longrightarrow>
            (\<exists>t. last_failure_time cb = Some t \<and> rt \<le> total_seconds (t_enter ev - t))"
    using B step keeps(4)
    by (auto simp: call_def should_attempt_reset_def split: option.splits if_splits)
  have D: "state cb = HALF_OPEN \<or> state cb = OPEN \<and> should_attempt_reset cb (t_enter ev) \<longrightarrow>
            r = outcome ev \<and> app w' = Suc (app w) \<and>
            (case outcome ev of
               Inr v \<Rightarrow> state cb' = CLOSED \<and> failure_count cb' = 0
             | Inl e \<Rightarrow> state cb' = (if ex e then OPEN else HALF_OPEN))"
    using call_trial[OF step _ keeps(1)] keeps(3) by (auto split: sum.splits)
  have E: "(\<forall>f \<in> set fs. \<exists>e. outcome f = Inl e \<and> ex e) \<and> int (length fs) \<le> thr \<longrightarrow>
            app (snd (cb_run (CircuitBreaker_init thr rt ex nm, world0) fs)) = length fs \<and>
            state (fst (cb_run (CircuitBreaker_init thr rt ex nm, world0) fs)) =
              (if fs \<noteq> [] \<and> int (length fs) = thr then OPEN else CLOSED)"
    using consecutive_failures[of fs ex thr rt nm] by blast
  from A B C D E show ?thesis by blast
qed


text \<open>
  The theorem at a breaker of threshold 1 and timeout 60 s: one transient failure opens
  it, and a successful call 60 s later closes it.
\<close>

theorem circuit_breaker_transitions_witness:
  "state (fst (cb_run (cb_example, world0) [ev_at 0 transient_failure])) = OPEN \<and>
   should_attempt_reset (fst (cb_run (cb_example, world0) [ev_at 0 transient_failure])) 60000000 \<and>
   state (fst (cb_run (cb_example, world0) [ev_at 0 transient_failure, ev_at 60000000 (Inr ())])) = CLOSED \<and>
   failure_count (fst (cb_run (cb_example, world0) [ev_at 0 transient_failure, ev_at 60000000 (Inr ())])) = 0"
  using circuit_breaker_transitions[of 1 60 ex_transient "''api''" "[ev_at 0 transient_failure]"
      "fst (cb_run (cb_example, world0) [ev_at 0 transient_failure])"
      "snd (cb_run (cb_example, world0) [ev_at 0 transient_failure])"
      "ev_at 60000000 (Inr ())"
      "fst (call (fst (cb_run (cb_example, world0) [ev_at 0 transient_failure])) 60000000 60000000
              (op_of (Inr ())) (snd (cb_run (cb_example, world0) [ev_at 0 transient_failure])))"
      "fst (snd (call (fst (cb_run (cb_example, world0) [ev_at 0 transient_failure])) 60000000 60000000
              (op_of (Inr ())) (snd (cb_run (cb_example, world0) [ev_at 0 transient_failure]))))"
      "snd (snd (call (fst (cb_run (cb_example, world0) [ev_at 0 transient_failure])) 60000000 60000000
              (op_of (Inr ())) (snd (cb_run (cb_example, world0) [ev_at 0 transient_failure]))))"
      "[ev_at 0 transient_failure]"]
  by (simp add: cb_eval)

text \<open>
  Claim C1 as stated fails where the trial call raises an exception outside the expected
  set: the breaker opened at time 0 admits a trial at 60 s, the trial raises a
  \<open>PermanentError\<close>, and the breaker stays half-open instead of opening; the call after
  it invokes the operation again, a second trial.
\<close>

theorem half_open_trial_counterexample:
  "state (fst (cb_run (cb_example, world0) [ev_at 0 transient_failure])) = OPEN \<and>
   state (fst (cb_run (cb_example, world0)
      [ev_at 0 transient_failure, ev_at 60000000 permanent_failure])) = HALF_OPEN \<and>
   app (snd (cb_run (cb_example, world0)
      [ev_at 0 transient_failure, ev_at 60000000 permanent_failure])) = 2 \<and>
   app (snd (cb_run (cb_example, world0)
      [ev_at 0 transient_failure, ev_at 60000000 permanent_failure,
       ev_at 60000001 permanent_failure])) = 3"
  by (simp add: cb_eval)

text \<open>
  Claim C6, as the code has it: an open breaker whose recovery timeout has not elapsed
  raises a plain \<open>Exception\<close> with the message \<open>Circuit breaker '<name>' is OPEN\<close>,
  whatever the wrapped operation is; the operation is not invoked (the world is
  unchanged) and the breaker is unchanged.
\<close>

theorem open_circuit_fail_fast:
  assumes "state cb = OPEN" and "\<not> should_attempt_reset cb now"
  shows "call cb now now' func w =
           (Inl (PyExn ''Exception''
                   (''Circuit breaker '' @ [CHR 0x27] @ cb_name cb @ [CHR 0x27] @ '' is OPEN'')),
            cb, w)"
  using assms by (simp add: call_def circuit_open_exn_def)

text \<open>
  The theorem at the breaker of the module's \<open>main\<close> (threshold 3, timeout 5 s) after
  three failures, called again 4 s after the first.
\<close>

theorem open_circuit_fail_fast_witness:
  "state (fst (cb_run (demo_cb, world0) [ev_at 0 demo_failure, ev_at 1 demo_failure, ev_at 2 demo_failure])) = OPEN \<and>
   \<not> should_attempt_reset (fst (cb_run (demo_cb, world0) [ev_at 0 demo_failure, ev_at 1 demo_failure, ev_at 2 demo_failure])) 4000000 \<and>
   fst (call (fst (cb_run (demo_cb, world0) [ev_at 0 demo_failure, ev_at 1 demo_failure, ev_at 2 demo_failure]))
          4000000 4000000 (op_of demo_failure) world0) =
     Inl (PyExn ''Exception'' (''Circuit breaker '' @ [CHR 0x27] @ ''test_cb'' @ [CHR 0x27] @ '' is OPEN'')) \<and>
   app (snd (snd (call (fst (cb_run (demo_cb, world0) [ev_at 0 demo_failure, ev_at 1 demo_failure, ev_at 2 demo_failure]))
          4000000 4000000 (op_of demo_failure) world0))) = 0"
  using open_circuit_fail_fast[of
      "fst (cb_run (demo_cb, world0) [ev_at 0 demo_failure, ev_at 1 demo_failure, ev_at 2 demo_failure])"
      4000000 4000000 "op_of demo_failure" world0]
  by (simp add: cb_eval)

text \<open>
  Claim C6 as stated fails on the type of the exception: the fail-fast of the breaker of
  \<open>main\<close> has the class \<open>Exception\<close>, which is the class of the failure the operation
  itself raises there, and no class \<open>CircuitOpenError\<close> exists.
\<close>

theorem circuit_open_error_type_counterexample:
  "fst (call (fst (cb_run (demo_cb, world0) [ev_at 0 demo_failure, ev_at 1 demo_failure, ev_at 2 demo_failure]))
          4000000 4000000 (op_of demo_failure) world0) =
     Inl (PyExn ''Exception'' (''Circuit breaker '' @ [CHR 0x27] @ ''test_cb'' @ [CHR 0x27] @ '' is OPEN'')) \<and>
   exn_class (PyExn ''Exception'' (''Circuit breaker '' @ [CHR 0x27] @ ''test_cb'' @ [CHR 0x27] @ '' is OPEN''))
     = exn_class (projl demo_failure) \<and>
   exn_class (PyExn ''Exception'' (''Circuit breaker '' @ [CHR 0x27] @ ''test_cb'' @ [CHR 0x27] @ '' is OPEN''))
     \<noteq> ''CircuitOpenError''"
  by (simp add: cb_eval)

section \<open>The retry handler\<close>

declare retry_loop.simps [simp del]

lemma call_on_retry_ok:
  assumes "well_behaved rh"
  shows "\<exists>w'. call_on_retry rh a d e w = (Inr (), w') \<and> app w' = app w"
proof (cases "on_retry rh")
  case None
  then show ?thesis by (simp add: call_on_retry_def)
next
  case (Some h)
  with assms have "\<exists>w'. h a d e w = (Inr (), w') \<and> app w' = app w"
    by (simp add: well_behaved_def)
  with Some show ?thesis by (simp add: call_on_retry_def)
qed

lemma time_sleep_ok: "0 \<le> d \<Longrightarrow> time_sleep d w = (Inr (), w\<lparr> sleeps := sleeps w @ [d] \<rparr>)"
  by (simp add: time_sleep_def)

lemma seq_op_apply: "seq_op outs w = (outs (app w), w\<lparr> app := Suc (app w) \<rparr>)"
  by (simp add: seq_op_def)

lemma retry_loop_general:
  assumes wb: "well_behaved rh"
  shows "1 \<le> a \<Longrightarrow> app w = nat (a - 1) \<Longrightarrow> k = nat (a - 1) + n \<Longrightarrow> int k < max_attempts rh \<Longrightarrow>
         (\<forall>i. nat (a - 1) \<le> i \<and> i < k \<longrightarrow> (\<exists>e. outs i = Inl e \<and> exceptions rh e)) \<Longrightarrow>
         stops_at rh outs k \<Longrightarrow>
         fst (retry_loop rh (seq_op outs) a le w) = outs k \<and>
         app (snd (retry_loop rh (seq_op outs) a le w)) = Suc k"
proof (induction n arbitrary: a w le)
  case 0
  then have k: "k = nat (a - 1)" "a \<le> max_attempts rh" by auto
  show ?case
  proof (cases "outs k")
    case (Inr v)
    with 0 k show ?thesis
      by (subst retry_loop.simps, subst (2) retry_loop.simps) (simp add: seq_op_apply)
  next
    case (Inl e)
    with 0 have "\<not> exceptions rh e \<or> a = max_attempts rh"
      by (auto simp: stops_at_def)
    with Inl 0 k show ?thesis
      by (subst retry_loop.simps, subst (2) retry_loop.simps) (auto simp: seq_op_apply)
  qed
next
  case (Suc n)
  let ?j = "nat (a - 1)"
  from Suc.prems have lt: "?j < k" "a < max_attempts rh" by auto
  with Suc.prems obtain e where e: "outs ?j = Inl e" "exceptions rh e" by blast
  let ?w1 = "w\<lparr> app := Suc (app w) \<rparr>"
  let ?d = "strategy rh a (max_attempts rh)"
  obtain w2 where w2: "call_on_retry rh a ?d e ?w1 = (Inr (), w2)" "app w2 = app ?w1"
    using call_on_retry_ok[OF wb] by blast
  have d: "0 \<le> ?d" using wb Suc.prems(1) lt(2) by (simp add: well_behaved_def)
  let ?w3 = "w2\<lparr> sleeps := sleeps w2 @ [?d] \<rparr>"
  have ts: "time_sleep ?d w2 = (Inr (), ?w3)" by (rule time_sleep_ok[OF d])
  have step: "retry_loop rh (seq_op outs) a le w = retry_loop rh (seq_op outs) (a + 1) (Some e) ?w3"
    using e lt Suc.prems(2) w2(1) ts
    by (subst retry_loop.simps) (simp add: seq_op_apply)
  have "fst (retry_loop rh (seq_op outs) (a + 1) (Some e) ?w3) = outs k \<and>
        app (snd (retry_loop rh (seq_op outs) (a + 1) (Some e) ?w3)) = Suc k"
  proof (rule Suc.IH)
    show "1 \<le> a + 1" using Suc.prems(1) by simp
    show "app ?w3 = nat (a + 1 - 1)" using w2(2) Suc.prems(1,2) by simp
    show "k = nat (a + 1 - 1) + n" using Suc.prems(1,3) by simp
    show "int k < max_attempts rh" by fact
    show "\<forall>i. nat (a + 1 - 1) \<le> i \<and> i < k \<longrightarrow> (\<exists>e. outs i = Inl e \<and> exceptions rh e)"
      using Suc.prems(1,5) by auto
    show "stops_at rh outs k" by fact
  qed
  with step show ?case by simp
qed

text \<open>
  Claim C4. The handler has \<open>max_attempts \<ge> 1\<close>, its strategy gives no negative delay
  and its hook, if any, returns (\<open>well_behaved\<close>). For every operation, given by the
  outcomes \<open>outs\<close> of its successive invocations:
  \<^item> if the first \<open>max_attempts - 1\<close> invocations raise retried exceptions and the next
    one returns \<open>v\<close>, the wrapper returns \<open>v\<close> after exactly \<open>max_attempts\<close> invocations;
  \<^item> if all invocations raise retried exceptions, the wrapper raises the exception of
    the last of exactly \<open>max_attempts\<close> invocations, unchanged;
  \<^item> if invocation \<open>k\<close> raises an exception that is not retried, after retried failures
    only, the wrapper raises that exception and the operation has run \<open>k + 1\<close> times.
\<close>

theorem retry_attempts:
  fixes rh :: "nat RetryHandler" and outs :: "nat \<Rightarrow> pyexn + 'a"
  assumes m: "1 \<le> max_attempts rh" and wb: "well_behaved rh"
  shows "((\<forall>i. int i < max_attempts rh - 1 \<longrightarrow> (\<exists>e. outs i = Inl e \<and> exceptions rh e)) \<and>
          outs (nat (max_attempts rh - 1)) = Inr v \<longrightarrow>
            fst (retry_call rh (seq_op outs) world0) = Inr v \<and>
            int (app (snd (retry_call rh (seq_op outs) world0))) = max_attempts rh)
       \<and> ((\<forall>i. int i < max_attempts rh \<longrightarrow> (\<exists>e. outs i = Inl e \<and> exceptions rh e)) \<longrightarrow>
            fst (retry_call rh (seq_op outs) world0) = outs (nat (max_attempts rh - 1)) \<and>
            int (app (snd (retry_call rh (seq_op outs) world0))) = max_attempts rh)
       \<and> ((\<forall>i. i < k \<longrightarrow> (\<exists>e. outs i = Inl e \<and> exceptions rh e)) \<and>
          int k < max_attempts rh \<and> outs k = Inl e' \<and> \<not> exceptions rh e' \<longrightarrow>
            fst (retry_call rh (seq_op outs) world0) = Inl e' \<and>
            app (snd (retry_call rh (seq_op outs) world0)) = Suc k)"
proof -
  let ?m = "nat (max_attempts rh - 1)"
  have gen: "fst (retry_call rh (seq_op outs) world0) = outs j \<and>
      app (snd (retry_call rh (seq_op outs) world0)) = Suc j"
    if "int j < max_attempts rh"
      and "\<forall>i. i < j \<longrightarrow> (\<exists>e. outs i = Inl e \<and> exceptions rh e)"
      and "stops_at rh outs j" for j
    unfolding retry_call_def using that
    by (intro retry_loop_general[OF wb, where n = j and a = 1 and k = j])
       (simp_all add: world0_def)
  have A: "(\<forall>i. int i < max_attempts rh - 1 \<longrightarrow> (\<exists>e. outs i = Inl e \<and> exceptions rh e)) \<and>
          outs ?m = Inr v \<longrightarrow>
            fst (retry_call rh (seq_op outs) world0) = Inr v \<and>
            int (app (snd (retry_call rh (seq_op outs) world0))) = max_attempts rh"
  proof
    assume h: "(\<forall>i. int i < max_attempts rh - 1 \<longrightarrow> (\<exists>e. outs i = Inl e \<and> exceptions rh e)) \<and>
          outs ?m = Inr v"
    have "fst (retry_call rh (seq_op outs) world0) = outs ?m \<and>
      app (snd (retry_call rh (seq_op outs) world0)) = Suc ?m"
      using h m by (intro gen) (auto simp: stops_at_def)
    with h m show "fst (retry_call rh (seq_op outs) world0) = Inr v \<and>
            int (app (snd (retry_call rh (seq_op outs) world0))) = max_attempts rh" by simp
  qed
  have B: "(\<forall>i. int i < max_attempts rh \<longrightarrow> (\<exists>e. outs i = Inl e \<and> exceptions rh e)) \<longrightarrow>
            fst (retry_call rh (seq_op outs) world0) = outs ?m \<and>
            int (app (snd (retry_call rh (seq_op outs) world0))) = max_attempts rh"
  proof
    assume h: "\<forall>i. int i < max_attempts rh \<longrightarrow> (\<exists>e. outs i = Inl e \<and> exceptions rh e)"
    have "fst (retry_call rh (seq_op outs) world0) = outs ?m \<and>
      app (snd (retry_call rh (seq_op outs) world0)) = Suc ?m"
      using h m by (intro gen) (auto simp: stops_at_def split: sum.splits)
    with m show "fst (retry_call rh (seq_op outs) world0) = outs ?m \<and>
            int (app (snd (retry_call rh (seq_op outs) world0))) = max_attempts rh" by simp
  qed
  have C: "(\<forall>i. i < k \<longrightarrow> (\<exists>e. outs i = Inl e \<and> exceptions rh e)) \<and>
          int k < max_attempts rh \<and> outs k = Inl e' \<and> \<not> exceptions rh e' \<longrightarrow>
            fst (retry_call rh (seq_op outs) world0) = Inl e' \<and>
            app (snd (retry_call rh (seq_op outs) world0)) = Suc k"
  proof
    assume h: "(\<forall>i. i < k \<longrightarrow> (\<exists>e. outs i = Inl e \<and> exceptions rh e)) \<and>
          int k < max_attempts rh \<and> outs k = Inl e' \<and> \<not> exceptions rh e'"
    have "fst (retry_call rh (seq_op outs) world0) = outs k \<and>
      app (snd (retry_call rh (seq_op outs) world0)) = Suc k"
      using h by (intro gen) (auto simp: stops_at_def)
    with h show "fst (retry_call rh (seq_op outs) world0) = Inl e' \<and>
            app (snd (retry_call rh (seq_op outs) world0)) = Suc k" by simp
  qed
  from A B C show ?thesis by blast
qed

text \<open>
  The theorem at three attempts with a fixed delay and an operation that fails twice.
\<close>

theorem retry_attempts_witness:
  "1 \<le> max_attempts retry_example \<and> well_behaved retry_example \<and>
   fst (retry_call retry_example (seq_op fails_twice) world0) = Inr ''Sucesso!'' \<and>
   app (snd (retry_call retry_example (seq_op fails_twice) world0)) = 3"
proof -
  have m: "1 \<le> max_attempts retry_example" by (simp add: retry_example_def)
  have wb: "well_behaved retry_example"
    by (simp add: retry_example_def well_behaved_def fixed_delay_def)
  have pre: "(\<forall>i. int i < max_attempts retry_example - 1 \<longrightarrow>
               (\<exists>e. fails_twice i = Inl e \<and> exceptions retry_example e)) \<and>
             fails_twice (nat (max_attempts retry_example - 1)) = Inr ''Sucesso!''"
    by (simp add: retry_example_def fails_twice_def)
  from retry_attempts[OF m wb, of fails_twice "''Sucesso!''"] pre m wb show ?thesis
    by (simp add: retry_example_def)
qed

section \<open>The order of the layers in \<open>resilient_call\<close>\<close>

lemmas rc_eval = resilient_call_def lookup_named_def demo_manager_def opened_manager_def
  always_down_def network_retry_def cache_fallback_def retry_call_def fallback_call_def
  seq_op_apply call_def on_failure_def on_success_def should_attempt_reset_def total_seconds_def
  CircuitBreaker_init_def world0_def circuit_open_exn_def time_sleep_def call_on_retry_def
  fixed_delay_def spec_resilient_call_def Let_def

text \<open>
  With the three handlers registered, \<open>resilient_call\<close> runs the breaker around the
  retry wrapper around the fallback wrapper around the operation.
\<close>

lemma resilient_call_layers:
  assumes "cbn \<noteq> []" "rn \<noteq> []" "fn \<noteq> []"
    and "circuit_breakers mgr cbn = Some cb" "retry_handlers mgr rn = Some rh"
    and "fallback_handlers mgr fn = Some fh"
  shows "fst (resilient_call mgr func (Some cbn) (Some rn) (Some fn) now now' w) =
         fst (call cb now now' (retry_call rh (fallback_call fh func)) w)"
  using assms by (simp add: resilient_call_def lookup_named_def split: prod.splits)

text \<open>
  Claim C2 at two inputs, where the code does not do what the claim says.
  \<^item> The breaker is open (one call without fallback has opened it) and the three handlers
    are named: the call raises the breaker's \<open>Exception\<close>; the fallback, being the
    innermost layer, does not catch it.
  \<^item> The breaker is closed and the operation always raises: the fallback answers at the
    first failure, so the operation runs once, nothing is retried and the breaker counts
    no failure.
  The composition of the specification, fallback outermost, returns the fallback value
  at the first input.
\<close>

theorem resilient_call_fallback_innermost:
  "map_option state (circuit_breakers opened_manager ''external_api'') = Some OPEN \<and>
   fst (resilient_call opened_manager always_down (Some ''external_api'')
          (Some ''network_operations'') (Some ''cache_fallback'') 1000000 1000000 world0)
     = Inl (PyExn ''Exception''
              (''Circuit breaker '' @ [CHR 0x27] @ ''external_api'' @ [CHR 0x27] @ '' is OPEN'')) \<and>
   fst (resilient_call demo_manager always_down (Some ''external_api'')
          (Some ''network_operations'') (Some ''cache_fallback'') 0 0 world0)
     = Inr ''last_collected_data'' \<and>
   app (snd (snd (resilient_call demo_manager always_down (Some ''external_api'')
          (Some ''network_operations'') (Some ''cache_fallback'') 0 0 world0))) = 1 \<and>
   map_option failure_count (circuit_breakers (fst (snd (resilient_call demo_manager always_down
          (Some ''external_api'') (Some ''network_operations'') (Some ''cache_fallback'') 0 0 world0)))
          ''external_api'') = Some 0 \<and>
   fst (spec_resilient_call (the (circuit_breakers opened_manager ''external_api'')) network_retry
          cache_fallback always_down 1000000 1000000 world0)
     = Inr ''last_collected_data''"
  by (simp add: rc_eval retry_loop.simps)

section \<open>The cache: lookups, capacity and time to live\<close>

lemma od_contains_iff: "od_contains k od \<longleftrightarrow> k \<in> set (map fst od)"
  by (simp add: od_contains_def map_of_eq_None_iff)

lemma od_del_keys: "map fst (od_del k od) = filter (\<lambda>x. x \<noteq> k) (map fst od)"
  by (simp add: od_del_def filter_map comp_def)

lemma od_del_absent: "k \<notin> set (map fst od) \<Longrightarrow> od_del k od = od"
  by (induction od) (auto simp: od_del_def)

lemma od_del_hd: "distinct (map fst ((k, v) # od)) \<Longrightarrow> od_del k ((k, v) # od) = od"
  using od_del_absent[of k od] by (simp add: od_del_def)

lemma od_setitem_absent: "k \<notin> set (map fst od) \<Longrightarrow> od_setitem k v od = od @ [(k, v)]"
  by (simp add: od_setitem_def od_contains_iff)

lemma od_move_to_end_last:
  "k \<notin> set (map fst od) \<Longrightarrow> od_move_to_end k (od @ [(k, v)]) = od @ [(k, v)]"
proof -
  assume k: "k \<notin> set (map fst od)"
  then have "map_of od k = None" by (simp add: map_of_eq_None_iff)
  then have m: "map_of (od @ [(k, v)]) k = Some v" by (simp add: map_add_def)
  have "od_del k (od @ [(k, v)]) = od"
    using od_del_absent[OF k] by (simp add: od_del_def)
  with m show ?thesis by (simp add: od_move_to_end_def)
qed

lemma od_del_removes: "k \<notin> set (map fst (od_del k od))"
  by (simp add: od_del_keys)

lemma od_del_keeps_absent: "k \<notin> set (map fst od) \<Longrightarrow> k \<notin> set (map fst (od_del j od))"
  by (simp add: od_del_keys)

lemma mc_insert_new:
  assumes "k \<notin> set (map fst (cache c))"
  shows "cache (mc_insert c k v t now) = cache c @ [(k, CacheItem_init k v t now)]"
  using assms by (simp add: mc_insert_def od_setitem_absent od_move_to_end_last)

text \<open>The lookup of a key after the dictionary operations.\<close>

lemma map_of_od_del: "map_of (od_del j od) k = (if k = j then None else map_of od k)"
  by (induction od) (auto simp: od_del_def)

lemma map_of_snoc: "map_of (od @ [(j, v)]) k = (case map_of od k of Some w \<Rightarrow> Some w | None \<Rightarrow> if k = j then Some v else None)"
  by (simp add: map_add_def split: option.splits)

lemma map_of_move_to_end: "map_of (od_move_to_end j od) k = map_of od k"
  by (auto simp: od_move_to_end_def map_add_def map_of_od_del split: option.splits)

lemma map_of_foldl_del:
  "map_of (foldl (\<lambda>od k. od_del k od) od ks) k = (if k \<in> set ks then None else map_of od k)"
  by (induction ks arbitrary: od) (auto simp: map_of_od_del)

lemma mc_set_shape:
  assumes "mc_set c k v ttl_arg t0 = (Inr (), c')"
  shows "\<exists>od2. cache c' = od2 @ [(k, stored c k v ttl_arg t0)] \<and> k \<notin> set (map fst od2)"
    and "max_size c' = max_size c"
proof -
  let ?od1 = "od_del k (cache c)"
  let ?c1 = "if od_contains k (cache c) then c\<lparr> cache := od_del k (cache c) \<rparr> else c"
  let ?item = "stored c k v ttl_arg t0"
  have c1: "cache ?c1 = ?od1" "default_ttl ?c1 = default_ttl c" "max_size ?c1 = max_size c"
    by (auto simp: od_contains_iff od_del_absent)
  have k1: "k \<notin> set (map fst ?od1)" by (rule od_del_removes)
  have "(\<exists>od2. cache c' = od2 @ [(k, ?item)] \<and> k \<notin> set (map fst od2)) \<and> max_size c' = max_size c"
  proof (cases "max_size ?c1 \<le> int (length (cache ?c1))")
    case False
    with assms have "c' = mc_insert ?c1 k v (ttl_or_default c ttl_arg) t0"
      by (simp add: mc_set_def Let_def ttl_or_default_def)
    with mc_insert_new[of k ?c1] c1 k1 show ?thesis
      by (auto simp: stored_def mc_insert_def)
  next
    case True
    with assms obtain k0 i0 rest where od1: "cache ?c1 = (k0, i0) # rest"
      by (cases "cache ?c1") (auto simp: mc_set_def Let_def)
    let ?c2 = "?c1\<lparr> cache := od_del k0 (cache ?c1) \<rparr>"
    from True assms od1 have "c' = mc_insert ?c2 k v (ttl_or_default c ttl_arg) t0"
      by (simp add: mc_set_def Let_def ttl_or_default_def)
    moreover have "k \<notin> set (map fst (cache ?c2))"
      using k1 c1 od_del_keeps_absent[of k ?od1 k0] by simp
    ultimately show ?thesis using mc_insert_new[of k ?c2] c1
      by (auto simp: stored_def mc_insert_def)
  qed
  then show "\<exists>od2. cache c' = od2 @ [(k, stored c k v ttl_arg t0)] \<and> k \<notin> set (map fst od2)"
    and "max_size c' = max_size c" by auto
qed

lemma mc_set_lookup:
  assumes "mc_set c k v ttl_arg t0 = (Inr (), c')"
  shows "map_of (cache c') k = Some (stored c k v ttl_arg t0)"
proof -
  from mc_set_shape(1)[OF assms] obtain od2
    where od2: "cache c' = od2 @ [(k, stored c k v ttl_arg t0)]" "k \<notin> set (map fst od2)"
    by blast
  from od2(2) have "map_of od2 k = None" by (simp add: map_of_eq_None_iff)
  with od2(1) show ?thesis by (simp add: map_add_def)
qed

lemma mc_get_absent:
  "map_of (cache c) k = None \<Longrightarrow>
   fst (mc_get c k d now) = Inr d \<and> cache (snd (mc_get c k d now)) = cache c"
  by (simp add: mc_get_def)

lemma mc_get_expired:
  "map_of (cache c) k = Some item \<Longrightarrow> is_expired item now = Inr True \<Longrightarrow>
   fst (mc_get c k d now) = Inr d \<and> cache (snd (mc_get c k d now)) = od_del k (cache c) \<and>
   \<not> od_contains k (cache (snd (mc_get c k d now)))"
  by (simp add: mc_get_def od_contains_iff od_del_keys)

lemma mc_get_hit:
  "map_of (cache c) k = Some item \<Longrightarrow> is_expired item now = Inr False \<Longrightarrow>
   fst (mc_get c k d now) = Inr (item_value item) \<and>
   cache (snd (mc_get c k d now)) = od_move_to_end k (cache c)"
  by (simp add: mc_get_def)

lemma mc_get_raises:
  "map_of (cache c) k = Some item \<Longrightarrow> is_expired item now = Inl e \<Longrightarrow>
   mc_get c k d now = (Inl e, c)"
  by (simp add: mc_get_def)

lemma is_expired_cases:
  "expiry item = Inr x \<Longrightarrow> is_expired item now = Inr (x < now)"
  by (simp add: is_expired_def)

lemma expiry_stored:
  "expiry (stored c k v ttl_arg t0) = Inr x \<Longrightarrow> x = t0 + ttl_or_default c ttl_arg * 1000000"
  by (auto simp: expiry_def stored_def CacheItem_init_def timedelta_seconds_def datetime_add_def
      split: if_splits sum.splits)


lemma map_of_replace:
  "map_of (map (\<lambda>e. if fst e = j then (j, v) else e) od) k =
     (if k = j then (if map_of od j = None then None else Some v) else map_of od k)"
  by (induction od) auto

lemma map_of_snoc_other: "k \<noteq> j \<Longrightarrow> map_of (od @ [(j, v)]) k = map_of od k"
  by (simp add: map_add_def split: option.splits)

lemma map_of_setitem: "map_of (od_setitem j v od) k = (if k = j then Some v else map_of od k)"
  by (auto simp: od_setitem_def od_contains_def map_of_replace map_add_def split: option.splits)

lemma mc_set_cache:
  "cache (snd (mc_set c j v ta now)) =
     (let od1 = od_del j (cache c)
      in if max_size c \<le> int (length od1)
         then (case od1 of [] \<Rightarrow> [] | (k0, i0) # rest \<Rightarrow> od_del k0 od1 @ [(j, stored c j v ta now)])
         else od1 @ [(j, stored c j v ta now)])
   \<and> max_size (snd (mc_set c j v ta now)) = max_size c"
proof -
  let ?od1 = "od_del j (cache c)"
  let ?c1 = "if od_contains j (cache c) then c\<lparr> cache := od_del j (cache c) \<rparr> else c"
  have c1: "cache ?c1 = ?od1" "default_ttl ?c1 = default_ttl c" "max_size ?c1 = max_size c"
    by (auto simp: od_contains_iff od_del_absent)
  have j1: "j \<notin> set (map fst ?od1)" by (rule od_del_removes)
  show ?thesis
  proof (cases "max_size c \<le> int (length ?od1)")
    case False
    then have "snd (mc_set c j v ta now) = mc_insert ?c1 j v (ttl_or_default c ta) now"
      using c1 by (simp add: mc_set_def Let_def ttl_or_default_def)
    with mc_insert_new[of j ?c1] c1 j1 False show ?thesis
      by (simp add: stored_def mc_insert_def Let_def)
  next
    case True
    show ?thesis
    proof (cases ?od1)
      case Nil
      with True c1 show ?thesis by (simp add: mc_set_def Let_def)
    next
      case (Cons e rest)
      obtain k0 i0 where e: "e = (k0, i0)" by (cases e)
      let ?c2 = "?c1\<lparr> cache := od_del k0 (cache ?c1) \<rparr>"
      from True Cons e c1 have "snd (mc_set c j v ta now) = mc_insert ?c2 j v (ttl_or_default c ta) now"
        by (simp add: mc_set_def Let_def ttl_or_default_def)
      moreover have "j \<notin> set (map fst (cache ?c2))"
        using j1 c1 od_del_keeps_absent[of j ?od1 k0] by simp
      ultimately show ?thesis using mc_insert_new[of j ?c2] c1 True Cons e
        by (simp add: stored_def mc_insert_def Let_def)
    qed
  qed
qed

text \<open>Operations that keep the entry of a key leave its lookup alone or remove it.\<close>

lemma expired_keys_set:
  "expired_keys od now = Inr ks \<Longrightarrow>
   set ks = {k. \<exists>it. (k, it) \<in> set od \<and> is_expired it now = Inr True}"
proof (induction od arbitrary: ks)
  case Nil
  then show ?case by simp
next
  case (Cons e od)
  obtain k it where e: "e = (k, it)" by (cases e)
  from Cons.prems e obtain b ks' where b: "is_expired it now = Inr b"
    and ks': "expired_keys od now = Inr ks'" and ks: "ks = (if b then k # ks' else ks')"
    by (auto split: sum.splits)
  from Cons.IH[OF ks'] b ks e show ?case by (cases b) auto
qed

lemma step_lookup:
  assumes "keeps_entry k op"
  shows "map_of (cache (mc_step c op)) k = map_of (cache c) k \<or> map_of (cache (mc_step c op)) k = None"
proof (cases op)
  case (Set j v ta now)
  with assms have jk: "j \<noteq> k" by simp
  let ?od1 = "od_del j (cache c)"
  let ?it = "stored c j v ta now"
  have kj: "k \<noteq> j" using jk by simp
  have m1: "map_of ?od1 k = map_of (cache c) k" using jk by (simp add: map_of_od_del)
  from mc_set_cache[of c j v ta now]
  consider "cache (snd (mc_set c j v ta now)) = []"
    | k0 where "cache (snd (mc_set c j v ta now)) = od_del k0 ?od1 @ [(j, ?it)]"
    | "cache (snd (mc_set c j v ta now)) = ?od1 @ [(j, ?it)]"
    by (auto simp: Let_def split: if_splits list.splits)
  then have "map_of (cache (snd (mc_set c j v ta now))) k = map_of (cache c) k \<or>
        map_of (cache (snd (mc_set c j v ta now))) k = None"
  proof cases
    case 1
    then show ?thesis by simp
  next
    case (2 k0)
    then have "map_of (cache (snd (mc_set c j v ta now))) k = map_of (od_del k0 ?od1) k"
      by (simp only: map_of_snoc_other[OF kj])
    with m1 show ?thesis by (simp add: map_of_od_del)
  next
    case 3
    then have "map_of (cache (snd (mc_set c j v ta now))) k = map_of ?od1 k"
      by (simp only: map_of_snoc_other[OF kj])
    with m1 show ?thesis by simp
  qed
  with Set show ?thesis by simp
next
  case (Get j d now)
  then show ?thesis
    by (auto simp: mc_get_def map_of_od_del map_of_move_to_end split: option.splits sum.splits bool.splits)
next
  case (Delete j)
  with assms show ?thesis by (auto simp: mc_delete_def map_of_od_del)
next
  case Clear
  with assms show ?thesis by simp
next
  case (CleanupExpired now)
  then show ?thesis
    by (auto simp: mc_cleanup_expired_def map_of_foldl_del split: sum.splits)
next
  case (Keys now)
  then show ?thesis
    by (auto simp: mc_keys_def mc_cleanup_expired_def map_of_foldl_del split: sum.splits prod.splits)
next
  case (Exists j now)
  then show ?thesis
    by (auto simp: mc_exists_def map_of_od_del split: option.splits sum.splits bool.splits)
qed

lemma mc_run_Cons: "mc_run c (x # ops) = mc_run (mc_step c x) ops"
  by (simp add: mc_run_def)

lemma run_lookup:
  "\<forall>op \<in> set ops. keeps_entry k op \<Longrightarrow>
   map_of (cache (mc_run c ops)) k = map_of (cache c) k \<or> map_of (cache (mc_run c ops)) k = None"
proof (induction ops arbitrary: c)
  case Nil
  then show ?case by (simp add: mc_run_def)
next
  case (Cons op ops)
  from Cons.prems have k: "keeps_entry k op" and ks: "\<forall>op \<in> set ops. keeps_entry k op" by auto
  from Cons.IH[OF ks, of "mc_step c op"] step_lookup[OF k, of c]
  show ?case by (auto simp: mc_run_Cons)
qed


text \<open>The entry of a key, its place in the dictionary, and the operations that keep it.\<close>

lemma entry_at_lookup: "entry_at k item n od \<Longrightarrow> map_of od k = Some item"
  by (auto simp: entry_at_def map_add_def map_of_eq_None_iff[THEN iffD2] split: option.splits)

lemma entry_at_mono: "entry_at k item n od \<Longrightarrow> n \<le> n' \<Longrightarrow> entry_at k item n' od"
  unfolding entry_at_def by (blast intro: order_trans)

lemma entry_at_only:
  "entry_at k item n od \<Longrightarrow> (k, it) \<in> set od \<Longrightarrow> it = item"
  by (auto simp: entry_at_def) (force+)

lemma entry_at_filter:
  assumes "entry_at k item n od" "P (k, item)"
  shows "entry_at k item n (filter P od)"
proof -
  from assms(1) obtain pre post where od: "od = pre @ (k, item) # post"
    and k: "k \<notin> fst ` set pre" "k \<notin> fst ` set post" and l: "length post \<le> n"
    by (auto simp: entry_at_def)
  have "filter P od = filter P pre @ (k, item) # filter P post"
    using od assms(2) by simp
  moreover have "k \<notin> fst ` set (filter P pre)" "k \<notin> fst ` set (filter P post)"
    using k by auto
  moreover have "length (filter P post) \<le> n"
    using l length_filter_le[of P post] by linarith
  ultimately show ?thesis unfolding entry_at_def by blast
qed

lemma entry_at_del: "entry_at k item n od \<Longrightarrow> j \<noteq> k \<Longrightarrow> entry_at k item n (od_del j od)"
  unfolding od_del_def by (rule entry_at_filter) auto

lemma entry_at_snoc:
  "entry_at k item n od \<Longrightarrow> j \<noteq> k \<Longrightarrow> entry_at k item (Suc n) (od @ [(j, v)])"
proof -
  assume a: "entry_at k item n od" and jk: "j \<noteq> k"
  from a obtain pre post where od: "od = pre @ (k, item) # post"
    and k: "k \<notin> fst ` set pre" "k \<notin> fst ` set post" and l: "length post \<le> n"
    by (auto simp: entry_at_def)
  have "od @ [(j, v)] = pre @ (k, item) # (post @ [(j, v)])" using od by simp
  moreover have "k \<notin> fst ` set (post @ [(j, v)])" using k jk by auto
  moreover have "length (post @ [(j, v)]) \<le> Suc n" using l by simp
  ultimately show ?thesis unfolding entry_at_def using k(1) by blast
qed

lemma entry_at_to_end:
  assumes "entry_at k item n od"
  shows "entry_at k item 0 (od_move_to_end k od)"
proof -
  from assms obtain pre post where od: "od = pre @ (k, item) # post"
    and k: "k \<notin> fst ` set pre" "k \<notin> fst ` set post"
    by (auto simp: entry_at_def)
  have f: "filter (\<lambda>e. fst e \<noteq> k) pre = pre" "filter (\<lambda>e. fst e \<noteq> k) post = post"
    using k by (auto intro!: filter_True)
  have "od_del k od = pre @ post" using od f by (simp add: od_del_def)
  with entry_at_lookup[OF assms] have "od_move_to_end k od = (pre @ post) @ (k, item) # []"
    by (simp add: od_move_to_end_def)
  moreover have "k \<notin> fst ` set (pre @ post)" using k by auto
  ultimately show ?thesis unfolding entry_at_def by (metis empty_iff image_empty le0 list.set(1) list.size(3))
qed

lemma entry_at_first:
  "entry_at k item n ((k, i0) # rest) \<Longrightarrow> length ((k, i0) # rest) \<le> Suc n"
proof -
  assume "entry_at k item n ((k, i0) # rest)"
  then obtain pre post where od: "(k, i0) # rest = pre @ (k, item) # post"
    and k: "k \<notin> fst ` set pre" and l: "length post \<le> n"
    by (auto simp: entry_at_def)
  have "pre = []"
  proof (cases pre)
    case (Cons e pre')
    with od have "e = (k, i0)" by simp
    with Cons k show ?thesis by simp
  qed simp
  with od l show ?thesis by simp
qed

lemma entry_at_foldl_del:
  "entry_at k item n od \<Longrightarrow> k \<notin> set ks \<Longrightarrow> entry_at k item n (foldl (\<lambda>od k. od_del k od) od ks)"
proof (induction ks arbitrary: od)
  case Nil
  then show ?case by simp
next
  case (Cons j ks)
  from Cons.prems have "j \<noteq> k" "k \<notin> set ks" by auto
  with Cons.IH[OF entry_at_del[OF Cons.prems(1) this(1)] this(2)] show ?case by simp
qed

lemma mc_step_max_size: "max_size (mc_step c op) = max_size c"
proof (cases op)
  case (Set j v ta now)
  then show ?thesis using mc_set_cache[of c j v ta now] by simp
qed (auto simp: mc_get_def mc_delete_def mc_clear_def mc_cleanup_expired_def mc_keys_def
      mc_exists_def split: option.splits sum.splits bool.splits prod.splits)

lemma mc_run_max_size: "max_size (mc_run c ops) = max_size c"
  by (induction ops arbitrary: c) (simp_all add: mc_run_Cons mc_step_max_size, simp add: mc_run_def)

lemma step_present:
  assumes at: "entry_at k item b (cache c)" and ex: "expiry item = Inr x"
    and keeps: "keeps_entry k op" and nl: "no_later x op"
    and budget: "int b + (if uses_other k op then 1 else 0) < max_size c"
  shows "entry_at k item (b + (if uses_other k op then 1 else 0)) (cache (mc_step c op))"
proof (cases op)
  case (Set j v ta now)
  with keeps have jk: "j \<noteq> k" by simp
  let ?od1 = "od_del j (cache c)"
  let ?it = "stored c j v ta now"
  have at1: "entry_at k item b ?od1" by (rule entry_at_del[OF at jk])
  have u: "uses_other k op" using Set jk by simp
  have res: "entry_at k item (Suc b) (cache (snd (mc_set c j v ta now)))"
  proof (cases "max_size c \<le> int (length ?od1)")
    case False
    then have "cache (snd (mc_set c j v ta now)) = ?od1 @ [(j, ?it)]"
      using mc_set_cache[of c j v ta now] by (simp add: Let_def)
    with entry_at_snoc[OF at1 jk] show ?thesis by simp
  next
    case True
    from entry_at_lookup[OF at1] obtain k0 i0 rest where od1: "?od1 = (k0, i0) # rest"
      by (cases ?od1) auto
    have "k0 \<noteq> k"
    proof
      assume "k0 = k"
      with at1 od1 have "length ?od1 \<le> Suc b" using entry_at_first[of k item b i0 rest] by simp
      with True budget u show False by simp
    qed
    then have at2: "entry_at k item b (od_del k0 ?od1)" by (rule entry_at_del[OF at1])
    have "cache (snd (mc_set c j v ta now)) = od_del k0 ?od1 @ [(j, ?it)]"
      using mc_set_cache[of c j v ta now] True od1 by (simp add: Let_def)
    with entry_at_snoc[OF at2 jk] show ?thesis by simp
  qed
  with Set u show ?thesis by simp
next
  case (Get j d now)
  show ?thesis
  proof (cases "j = k")
    case True
    from nl Get have "now \<le> x" by simp
    with ex have "is_expired item now = Inr False" by (simp add: is_expired_def)
    with entry_at_lookup[OF at] True
    have "cache (snd (mc_get c j d now)) = od_move_to_end k (cache c)"
      by (simp add: mc_get_def)
    with entry_at_to_end[OF at] entry_at_mono[of k item 0 _ b] Get True show ?thesis by simp
  next
    case False
    have "entry_at k item (Suc b) (cache (snd (mc_get c j d now)))"
    proof (cases "map_of (cache c) j")
      case None
      with at show ?thesis by (simp add: mc_get_def entry_at_mono)
    next
      case (Some it)
      have mv: "entry_at k item (Suc b) (od_move_to_end j (cache c))"
        using Some entry_at_snoc[OF entry_at_del[OF at False] False]
        by (simp add: od_move_to_end_def)
      from Some at mv entry_at_del[OF at False] show ?thesis
        by (auto simp: mc_get_def entry_at_mono split: sum.splits bool.splits)
    qed
    with Get False show ?thesis by simp
  qed
next
  case (Delete j)
  with keeps at show ?thesis by (auto simp: mc_delete_def entry_at_del)
next
  case Clear
  with keeps show ?thesis by simp
next
  case (CleanupExpired now)
  from nl CleanupExpired have now: "now \<le> x" by simp
  with ex have ne: "is_expired item now = Inr False" by (simp add: is_expired_def)
  have "entry_at k item b (cache (snd (mc_cleanup_expired c now)))"
  proof (cases "expired_keys (cache c) now")
    case (Inl e)
    with at show ?thesis by (simp add: mc_cleanup_expired_def)
  next
    case (Inr ks)
    have "k \<notin> set ks"
    proof
      assume "k \<in> set ks"
      with expired_keys_set[OF Inr] obtain it where "(k, it) \<in> set (cache c)"
        "is_expired it now = Inr True" by auto
      with entry_at_only[OF at] ne show False by auto
    qed
    with Inr entry_at_foldl_del[OF at] show ?thesis by (simp add: mc_cleanup_expired_def)
  qed
  with CleanupExpired show ?thesis by simp
next
  case (Keys now)
  from nl Keys have now: "now \<le> x" by simp
  with ex have ne: "is_expired item now = Inr False" by (simp add: is_expired_def)
  have "entry_at k item b (cache (snd (mc_keys c now)))"
  proof (cases "expired_keys (cache c) now")
    case (Inl e)
    with at show ?thesis by (simp add: mc_keys_def mc_cleanup_expired_def)
  next
    case (Inr ks)
    have "k \<notin> set ks"
    proof
      assume "k \<in> set ks"
      with expired_keys_set[OF Inr] obtain it where "(k, it) \<in> set (cache c)"
        "is_expired it now = Inr True" by auto
      with entry_at_only[OF at] ne show False by auto
    qed
    with Inr entry_at_foldl_del[OF at] show ?thesis
      by (simp add: mc_keys_def mc_cleanup_expired_def)
  qed
  with Keys show ?thesis by simp
next
  case (Exists j now)
  show ?thesis
  proof (cases "j = k")
    case True
    from nl Exists have "now \<le> x" by simp
    with ex have "is_expired item now = Inr False" by (simp add: is_expired_def)
    with entry_at_lookup[OF at] True at Exists show ?thesis by (simp add: mc_exists_def)
  next
    case False
    with at entry_at_del[OF at False] Exists show ?thesis
      by (auto simp: mc_exists_def split: option.splits sum.splits bool.splits)
  qed
qed

lemma run_present:
  "entry_at k item b (cache c) \<Longrightarrow> expiry item = Inr x \<Longrightarrow>
   \<forall>op \<in> set ops. keeps_entry k op \<and> no_later x op \<Longrightarrow>
   int b + int (length (filter (uses_other k) ops)) < max_size c \<Longrightarrow>
   entry_at k item (b + length (filter (uses_other k) ops)) (cache (mc_run c ops))"
proof (induction ops arbitrary: c b)
  case Nil
  then show ?case by (simp add: mc_run_def)
next
  case (Cons op ops)
  let ?u = "if uses_other k op then 1 else (0::nat)"
  from Cons.prems(3) have k: "keeps_entry k op" "no_later x op"
    and ks: "\<forall>op \<in> set ops. keeps_entry k op \<and> no_later x op" by auto
  from Cons.prems(4) have b1: "int b + (if uses_other k op then 1 else 0) < max_size c"
    by (auto split: if_splits)
  have at1: "entry_at k item (b + ?u) (cache (mc_step c op))"
    using step_present[OF Cons.prems(1,2) k b1] by simp
  have b2: "int (b + ?u) + int (length (filter (uses_other k) ops)) < max_size (mc_step c op)"
    using Cons.prems(4) by (auto simp: mc_step_max_size)
  from Cons.IH[OF at1 Cons.prems(2) ks b2] show ?case
    by (auto simp: mc_run_Cons add.assoc)
qed

lemma od_move_to_end_keys:
  "map_of od k = Some v \<Longrightarrow> map fst (od_move_to_end k od) = filter (\<lambda>x. x \<noteq> k) (map fst od) @ [k]"
  by (simp add: od_move_to_end_def od_del_keys)

lemma mc_set_result:
  assumes d: "distinct (map fst (cache c))" and m: "0 < max_size c"
  shows "fst (mc_set c k v ttl_arg now) = Inr () \<and>
         cache (snd (mc_set c k v ttl_arg now)) = after_set c k v ttl_arg now \<and>
         max_size (snd (mc_set c k v ttl_arg now)) = max_size c \<and>
         default_ttl (snd (mc_set c k v ttl_arg now)) = default_ttl c"
proof -
  let ?od1 = "od_del k (cache c)"
  let ?c1 = "if od_contains k (cache c) then c\<lparr> cache := od_del k (cache c) \<rparr> else c"
  have c1: "cache ?c1 = ?od1" "max_size ?c1 = max_size c" "default_ttl ?c1 = default_ttl c"
    by (auto simp: od_contains_iff od_del_absent)
  have d1: "distinct (map fst ?od1)" "k \<notin> set (map fst ?od1)"
    using d by (auto simp: od_del_keys)
  show ?thesis
  proof (cases "max_size c \<le> int (length ?od1)")
    case False
    with c1 d1 show ?thesis
      by (simp add: mc_set_def Let_def mc_insert_def after_set_def od_setitem_absent
          od_move_to_end_last stored_def ttl_or_default_def)
  next
    case True
    with m obtain k0 i0 rest where od1: "?od1 = (k0, i0) # rest" by (cases ?od1) auto
    with d1 have rest: "od_del k0 ?od1 = rest" "k \<notin> set (map fst rest)"
      using od_del_hd[of k0 i0 rest] by auto
    from True c1 od1 rest show ?thesis
      by (simp add: mc_set_def Let_def mc_insert_def after_set_def od_setitem_absent
          od_move_to_end_last stored_def ttl_or_default_def)
  qed
qed

lemma foldl_od_del: "foldl (\<lambda>od k. od_del k od) od ks = filter (\<lambda>e. fst e \<notin> set ks) od"
  by (induction ks arbitrary: od) (auto simp: od_del_def intro: filter_cong)

lemma filter_keys: "map fst (filter (\<lambda>e. R (fst e)) od) = filter R (map fst od)"
  by (simp add: filter_map comp_def)

text \<open>Every operation but a set and a hit keeps a part of the entries, in their order.\<close>

lemma mc_step_sublist:
  assumes "touched c x = []"
  shows "\<exists>R. cache (mc_step c x) = filter (\<lambda>e. R (fst e)) (cache c)"
proof (cases x)
  case (Set k v t now)
  with assms show ?thesis by simp
next
  case (Get k d now)
  with assms show ?thesis
    by (auto simp: mc_get_def od_del_def split: option.splits if_splits sum.splits bool.splits
        intro: exI[of _ "\<lambda>x. True"])
next
  case (Delete k)
  then show ?thesis
    by (auto simp: mc_delete_def od_del_def intro: exI[of _ "\<lambda>x. True"])
next
  case Clear
  then show ?thesis by (auto simp: mc_clear_def intro: exI[of _ "\<lambda>x. False"])
next
  case (CleanupExpired now)
  then show ?thesis
    by (auto simp: mc_cleanup_expired_def foldl_od_del split: sum.splits
        intro: exI[of _ "\<lambda>x. True"])
next
  case (Keys now)
  then show ?thesis
    by (auto simp: mc_keys_def mc_cleanup_expired_def foldl_od_del split: sum.splits prod.splits
        intro: exI[of _ "\<lambda>x. True"])
next
  case (Exists k now)
  then show ?thesis
    by (auto simp: mc_exists_def od_del_def split: option.splits sum.splits bool.splits
        intro: exI[of _ "\<lambda>x. True"])
qed

lemma mc_get_hit_cache:
  assumes "map_of (cache c) k = Some item" "is_expired item now = Inr False"
  shows "cache (snd (mc_get c k d now)) = od_del k (cache c) @ [(k, item)]"
  using assms by (simp add: mc_get_def od_move_to_end_def)

lemma distinct_tl_snoc:
  "distinct (map fst ys) \<Longrightarrow> k \<notin> set (map fst ys) \<Longrightarrow> distinct (map fst (tl ys @ [(k, i)]))"
  by (cases ys) auto

lemma mc_step_inv:
  assumes "mc_inv c"
  shows "mc_inv (mc_step c x)"
proof (cases "touched c x = []")
  case True
  then obtain R where R: "cache (mc_step c x) = filter (\<lambda>e. R (fst e)) (cache c)"
    using mc_step_sublist by blast
  have "length (filter (\<lambda>e. R (fst e)) (cache c)) \<le> length (cache c)"
    by (rule length_filter_le)
  then have "int (length (filter (\<lambda>e. R (fst e)) (cache c))) \<le> max_size c"
    using assms unfolding mc_inv_def by linarith
  with assms R mc_step_max_size[of c x] show ?thesis
    by (simp add: mc_inv_def filter_keys)
next
  case False
  show ?thesis
  proof (cases x)
    case (Set k v t now)
    from assms have d: "distinct (map fst (cache c))" and m: "0 < max_size c"
      and l: "int (length (cache c)) \<le> max_size c" by (simp_all add: mc_inv_def)
    have dd: "distinct (map fst (od_del k (cache c)))" "k \<notin> set (map fst (od_del k (cache c)))"
      using d by (auto simp: od_del_keys)
    have ll: "length (od_del k (cache c)) \<le> length (cache c)" by (simp add: od_del_def)
    have "distinct (map fst (after_set c k v t now))"
      using dd distinct_tl_snoc[OF dd] by (auto simp: after_set_def Let_def)
    moreover have "int (length (after_set c k v t now)) \<le> max_size c"
      using l ll m by (auto simp: after_set_def Let_def)
    ultimately show ?thesis
      using Set mc_set_result[OF d m, of k v t now] m by (simp add: mc_inv_def)
  next
    case (Get k d now)
    with False obtain item where it: "map_of (cache c) k = Some item" "is_expired item now = Inr False"
      by (auto split: option.splits if_splits)
    then have "k \<in> set (map fst (cache c))" by (metis map_of_eq_None_iff option.distinct(1) set_map)
    then have "length (filter (\<lambda>x. x \<noteq> k) (map fst (cache c))) < length (map fst (cache c))"
      by (intro length_filter_less[where x = k]) auto
    then have "length (od_del k (cache c)) < length (cache c)"
      by (metis length_map od_del_keys)
    with assms Get mc_get_hit_cache[OF it, of d] mc_step_max_size[of c x] show ?thesis
      by (auto simp: mc_inv_def od_del_keys)
  qed (use False in simp_all)
qed

lemma mc_run_snoc: "mc_run c (ops @ [x]) = mc_step (mc_run c ops) x"
  by (simp add: mc_run_def)

lemma mc_run_inv: "mc_inv c \<Longrightarrow> mc_inv (mc_run c ops)"
  by (induction ops arbitrary: c) (simp_all add: mc_run_Cons mc_step_inv, simp add: mc_run_def)

lemma filter_mem_filter: "filter (\<lambda>k. k \<in> set (filter R xs)) xs = filter R xs"
  by (rule filter_cong) auto

lemma filter_tl_snoc:
  "distinct ys \<Longrightarrow> k \<notin> set ys \<Longrightarrow> filter (\<lambda>x. x \<in> set (tl ys @ [k])) ys = tl ys"
  by (cases ys) (auto intro: filter_True)

lemma remdups_app: "remdups (xs @ ys) = filter (\<lambda>x. x \<notin> set ys) (remdups xs) @ remdups ys"
  by (induction xs) auto

lemma remdups_snoc_distinct:
  "distinct xs \<Longrightarrow> remdups (xs @ [k]) = filter (\<lambda>x. x \<noteq> k) xs @ [k]"
  by (simp add: remdups_app distinct_remdups_id)

lemma remdups_relog:
  assumes "\<forall>k \<in> set A. P k \<and> \<not> Q k \<longrightarrow> k \<in> set L"
  shows "filter P (remdups (filter Q (remdups A) @ L)) = filter P (remdups (A @ L))"
proof -
  have "filter (\<lambda>x. Q x \<and> x \<notin> set L \<and> P x) (remdups A) = filter (\<lambda>x. x \<notin> set L \<and> P x) (remdups A)"
    using assms by (intro filter_cong) auto
  then show ?thesis
    by (simp add: remdups_app remdups_filter remdups_remdups)
qed

lemma mc_step_order:
  assumes inv: "mc_inv c"
  shows "map fst (cache (mc_step c x)) =
         filter (\<lambda>k. k \<in> set (map fst (cache (mc_step c x))))
                (remdups (map fst (cache c) @ touched c x))"
proof -
  from inv have d: "distinct (map fst (cache c))" and m: "0 < max_size c"
    by (simp_all add: mc_inv_def)
  let ?ys = "filter (\<lambda>x. x \<noteq> k) (map fst (cache c))"
  show ?thesis
  proof (cases "touched c x = []")
    case True
    then obtain R where R: "cache (mc_step c x) = filter (\<lambda>e. R (fst e)) (cache c)"
      using mc_step_sublist by blast
    with True d show ?thesis
      by (simp only: R filter_keys append_Nil2 distinct_remdups_id filter_mem_filter)
  next
    case False
    show ?thesis
    proof (cases x)
      case (Set k v t now)
      let ?ys = "filter (\<lambda>x. x \<noteq> k) (map fst (cache c))"
      have ys: "distinct ?ys" "k \<notin> set ?ys" using d by auto
      have keys: "map fst (cache (mc_step c x)) =
                  (if max_size c \<le> int (length ?ys) then tl ?ys else ?ys) @ [k]"
        using Set mc_set_result[OF d m, of k v t now]
        by (simp add: after_set_def Let_def od_del_keys[symmetric] map_tl)
      have rd: "remdups (map fst (cache c) @ touched c x) = ?ys @ [k]"
        using Set d by (simp add: remdups_snoc_distinct)
      show ?thesis
      proof (cases "max_size c \<le> int (length ?ys)")
        case True
        with keys rd filter_tl_snoc[OF ys] show ?thesis by simp
      next
        case False
        have "filter (\<lambda>x. x \<in> set (?ys @ [k])) ?ys = ?ys" by (rule filter_True) simp
        with False keys rd show ?thesis by simp
      qed
    next
      case (Get k dflt now)
      let ?ys = "filter (\<lambda>x. x \<noteq> k) (map fst (cache c))"
      from Get False obtain item where it: "map_of (cache c) k = Some item" "is_expired item now = Inr False"
        by (auto split: option.splits if_splits)
      have keys: "map fst (cache (mc_step c x)) = ?ys @ [k]"
        using Get mc_get_hit_cache[OF it, of dflt] by (simp add: od_del_keys)
      have rd: "remdups (map fst (cache c) @ touched c x) = ?ys @ [k]"
        using Get it d by (simp add: remdups_snoc_distinct)
      have "filter (\<lambda>x. x \<in> set (?ys @ [k])) ?ys = ?ys" by (rule filter_True) simp
      with keys rd show ?thesis by simp
    qed (use False in simp_all)
  qed
qed

lemma mc_step_keys_sub:
  assumes "mc_inv c"
  shows "set (map fst (cache (mc_step c x))) \<subseteq> set (map fst (cache c)) \<union> set (touched c x)"
proof -
  have "set (map fst (cache (mc_step c x))) \<subseteq> set (remdups (map fst (cache c) @ touched c x))"
    by (subst mc_step_order[OF assms]) (rule filter_is_subset)
  then show ?thesis by simp
qed

lemma mc_run_keys_sub:
  "mc_inv c \<Longrightarrow> set (map fst (cache (mc_run c ops))) \<subseteq> set (map fst (cache c)) \<union> set (touch_log c ops)"
proof (induction ops arbitrary: c)
  case Nil
  then show ?case by (simp add: mc_run_def)
next
  case (Cons x xs)
  from Cons.IH[OF mc_step_inv[OF Cons.prems], of x] mc_step_keys_sub[OF Cons.prems, of x]
  show ?case by (auto simp: mc_run_Cons)
qed

lemma mc_run_order:
  "mc_inv c \<Longrightarrow>
   map fst (cache (mc_run c ops)) =
   filter (\<lambda>k. k \<in> set (map fst (cache (mc_run c ops))))
          (remdups (map fst (cache c) @ touch_log c ops))"
proof (induction ops arbitrary: c)
  case Nil
  then show ?case
    by (simp add: mc_run_def mc_inv_def distinct_remdups_id filter_True)
next
  case (Cons x xs)
  let ?c1 = "mc_step c x"
  let ?P = "\<lambda>k. k \<in> set (map fst (cache (mc_run ?c1 xs)))"
  let ?Q = "\<lambda>k. k \<in> set (map fst (cache ?c1))"
  let ?A = "map fst (cache c) @ touched c x"
  let ?L = "touch_log ?c1 xs"
  have inv1: "mc_inv ?c1" by (rule mc_step_inv[OF Cons.prems])
  have ih: "map fst (cache (mc_run ?c1 xs)) = filter ?P (remdups (map fst (cache ?c1) @ ?L))"
    by (rule Cons.IH[OF inv1])
  have st: "map fst (cache ?c1) = filter ?Q (remdups ?A)"
    by (rule mc_step_order[OF Cons.prems])
  have sub: "\<forall>k \<in> set ?A. ?P k \<and> \<not> ?Q k \<longrightarrow> k \<in> set ?L"
    using mc_run_keys_sub[OF inv1, of xs] by auto
  have "filter ?P (remdups (filter ?Q (remdups ?A) @ ?L)) = filter ?P (remdups (?A @ ?L))"
    by (rule remdups_relog[OF sub])
  with ih st have "map fst (cache (mc_run ?c1 xs)) = filter ?P (remdups (?A @ ?L))"
    by metis
  then show ?case by (simp only: mc_run_Cons touch_log.simps append_assoc)
qed

lemma init_inv_mc: "0 < ms \<Longrightarrow> mc_inv (MemoryCache_init ms dt)"
  by (simp add: mc_inv_def MemoryCache_init_def)

text \<open>
  The operations of \<open>MemoryCache\<close> by themselves keep the bound. Let \<open>c\<close> be the cache
  after any sequence of them from the empty cache that the constructor builds with
  \<open>max_size \<ge> 1\<close>. Then
  \<^item> \<open>c\<close> holds at most \<open>max_size\<close> entries, with distinct keys;
  \<^item> the entries are in the order of the last use of their keys, the least recently
    used first, where a use is a \<open>set\<close> or a \<open>get\<close> that hits (\<open>lru_order\<close>);
  \<^item> a \<open>set\<close> returns; for a key that is not in the full cache it removes the first
    entry, which is the least recently used one, appends the new entry and leaves all
    the others as they are, in their order;
  \<^item> a \<open>set\<close> for a key that is present, or in a cache that is not full, evicts nothing.
\<close>

theorem lru_cache_bounded:
  assumes ms: "0 < ms" and c: "c = mc_run (MemoryCache_init ms dt) ops"
  shows "int (length (cache c)) \<le> ms
       \<and> distinct (map fst (cache c))
       \<and> map fst (cache c) = lru_order (MemoryCache_init ms dt) ops
       \<and> fst (mc_set c k v ttl_arg now) = Inr ()
       \<and> (k \<notin> set (map fst (cache c)) \<and> int (length (cache c)) = ms \<longrightarrow>
            cache (snd (mc_set c k v ttl_arg now)) =
              tl (cache c) @ [(k, stored c k v ttl_arg now)] \<and>
            map fst (cache (snd (mc_set c k v ttl_arg now))) =
              tl (lru_order (MemoryCache_init ms dt) ops) @ [k])
       \<and> (k \<in> set (map fst (cache c)) \<or> int (length (cache c)) < ms \<longrightarrow>
            cache (snd (mc_set c k v ttl_arg now)) =
              od_del k (cache c) @ [(k, stored c k v ttl_arg now)])"
proof -
  let ?c0 = "MemoryCache_init ms dt :: 'a MemoryCache"
  have inv: "mc_inv c" unfolding c by (rule mc_run_inv[OF init_inv_mc[OF ms]])
  have cfg: "max_size c = ms" unfolding c by (simp add: mc_run_max_size MemoryCache_init_def)
  from inv cfg have A: "int (length (cache c)) \<le> ms" and B: "distinct (map fst (cache c))"
    and m: "0 < max_size c"
    by (simp_all add: mc_inv_def)
  have c0: "map fst (cache ?c0) = []" by (simp add: MemoryCache_init_def)
  have ord: "map fst (cache c) =
        filter (\<lambda>k. k \<in> set (map fst (cache c))) (remdups (map fst (cache ?c0) @ touch_log ?c0 ops))"
    unfolding c by (rule mc_run_order[OF init_inv_mc[OF ms]])
  have "lru_order ?c0 ops =
        filter (\<lambda>k. k \<in> set (map fst (cache c))) (remdups (touch_log ?c0 ops))"
    unfolding lru_order_def c by (simp only: od_contains_iff)
  with ord have C: "map fst (cache c) = lru_order ?c0 ops"
    by (simp only: c0 append_Nil)
  note r = mc_set_result[OF B m, of k v ttl_arg now]
  from r have D: "fst (mc_set c k v ttl_arg now) = Inr ()" by simp
  have E: "k \<notin> set (map fst (cache c)) \<and> int (length (cache c)) = ms \<longrightarrow>
            cache (snd (mc_set c k v ttl_arg now)) =
              tl (cache c) @ [(k, stored c k v ttl_arg now)] \<and>
            map fst (cache (snd (mc_set c k v ttl_arg now))) = tl (lru_order ?c0 ops) @ [k]"
  proof
    assume h: "k \<notin> set (map fst (cache c)) \<and> int (length (cache c)) = ms"
    then have "od_del k (cache c) = cache c" by (simp add: od_del_absent)
    with h r cfg have e: "cache (snd (mc_set c k v ttl_arg now)) =
              tl (cache c) @ [(k, stored c k v ttl_arg now)]"
      by (simp add: after_set_def stored_def)
    then have "map fst (cache (snd (mc_set c k v ttl_arg now))) = tl (map fst (cache c)) @ [k]"
      by (simp add: map_tl)
    with e C show "cache (snd (mc_set c k v ttl_arg now)) =
              tl (cache c) @ [(k, stored c k v ttl_arg now)] \<and>
            map fst (cache (snd (mc_set c k v ttl_arg now))) = tl (lru_order ?c0 ops) @ [k]"
      by simp
  qed
  have F: "k \<in> set (map fst (cache c)) \<or> int (length (cache c)) < ms \<longrightarrow>
            cache (snd (mc_set c k v ttl_arg now)) =
              od_del k (cache c) @ [(k, stored c k v ttl_arg now)]"
  proof
    assume h: "k \<in> set (map fst (cache c)) \<or> int (length (cache c)) < ms"
    have "length (od_del k (cache c)) \<le> length (cache c)"
      unfolding od_del_def by (rule length_filter_le)
    moreover have "k \<in> set (map fst (cache c)) \<Longrightarrow> length (od_del k (cache c)) < length (cache c)"
    proof -
      assume "k \<in> set (map fst (cache c))"
      then have "length (filter (\<lambda>x. x \<noteq> k) (map fst (cache c))) < length (map fst (cache c))"
        by (intro length_filter_less[where x = k]) auto
      then show ?thesis by (metis length_map od_del_keys)
    qed
    ultimately have "int (length (od_del k (cache c))) < ms" using h A by linarith
    with r cfg show "cache (snd (mc_set c k v ttl_arg now)) =
              od_del k (cache c) @ [(k, stored c k v ttl_arg now)]"
      by (simp add: after_set_def stored_def)
  qed
  from A B C D E F show ?thesis by blast
qed

text \<open>
  The definitions a run of the cache on a concrete input unfolds.
\<close>

lemmas mc_eval = mc_run_def mc_set_def mc_get_def mc_exists_def mc_insert_def od_contains_def
  od_del_def od_setitem_def od_move_to_end_def CacheItem_init_def is_expired_def expiry_def
  timedelta_seconds_def datetime_add_def datetime_max_def MemoryCache_init_def stats0_def Let_def
  lru_order_def lru_example_ops_def ttl_or_default_def stored_def

text \<open>
  At capacity 2: after \<open>set a\<close>, \<open>set b\<close>, \<open>get a\<close> the order is \<open>b, a\<close>, and a \<open>set c\<close>
  evicts \<open>b\<close>.
\<close>

theorem lru_cache_bounded_witness:
  "(0::int) < 2 \<and>
   map fst (cache (mc_run (MemoryCache_init 2 3600) lru_example_ops)) = [''b'', ''a''] \<and>
   lru_order (MemoryCache_init 2 3600) lru_example_ops = [''b'', ''a''] \<and>
   map fst (cache (snd (mc_set (mc_run (MemoryCache_init 2 3600) lru_example_ops)
                          ''c'' 3 None 3000000))) = [''a'', ''c'']"
  using lru_cache_bounded[where ms = 2 and dt = 3600 and ops = lru_example_ops
      and c = "mc_run (MemoryCache_init 2 3600) lru_example_ops"
      and k = "''c''" and v = 3 and ttl_arg = None and now = 3000000]
  by (simp add: mc_eval)

text \<open>
  Claim C3. The cache never holds more than \<open>max_size\<close> entries, and a \<open>set\<close> of a new
  key into a cache that holds \<open>max_size\<close> entries evicts the least recently used one.
  \<open>MemoryCache.set\<close> enforces this, but \<open>PersistentCache._load_persistent_cache\<close>
  writes the entries of the pickle file into \<open>memory_cache.cache\<close> with no look at
  \<open>max_size\<close>. A \<open>PersistentCache\<close> of capacity 1 built over a file with three live
  entries holds three entries; a \<open>set\<close> of a fourth key then evicts one entry and
  inserts one, so the cache still holds three entries, above its capacity.
\<close>

theorem loaded_cache_exceeds_max_size:
  "max_size (pc_memory_cache loaded_example) = 1 \<and>
   length (cache (pc_memory_cache loaded_example)) = 3 \<and>
   fst (pc_set loaded_example ''d'' 4 None 2000000) = Inr () \<and>
   map fst (cache (pc_memory_cache (snd (pc_set loaded_example ''d'' 4 None 2000000))))
     = [''b'', ''c'', ''d'']"
  by (simp add: loaded_example_def three_entries_def PersistentCache_init_def pc_set_def mc_eval)

text \<open>
  An operation that happens no later than \<open>t\<close> happens no later than any later time.
\<close>

lemma no_later_mono: "no_later t op \<Longrightarrow> t \<le> x \<Longrightarrow> no_later x op"
  by (cases op) auto

text \<open>
  Claim C7, with the condition on what happens between the \<open>set\<close> and the \<open>get\<close>.
  Let \<open>set(k, v, ttl)\<close> return at time \<open>t0\<close>, leaving the cache \<open>c'\<close>, let the end
  \<open>x\<close> of the time to live be a date that \<open>datetime\<close> represents, and let \<open>ops\<close> be
  operations none of which is a \<open>set\<close> or \<open>delete\<close> of \<open>k\<close> or a \<open>clear\<close>. Then
  \<^item> \<open>x\<close> is \<open>t0\<close> plus the time to live (the default one if none is given);
  \<^item> after \<open>ops\<close> the cache holds for \<open>k\<close> the entry that was set, or none;
  \<^item> if it still holds that entry, a \<open>get(k)\<close> at a time \<open>t \<le> x\<close> returns \<open>v\<close>;
  \<^item> it does hold it, and \<open>get(k)\<close> at \<open>t \<le> x\<close> returns \<open>v\<close>, when every operation of
    \<open>ops\<close> happens no later than \<open>t\<close> and fewer than \<open>max_size\<close> of them are a \<open>set\<close> or
    \<open>get\<close> of another key;
  \<^item> a \<open>get(k)\<close> at a time \<open>t > x\<close> returns the default, and \<open>k\<close> is not in the cache
    afterwards;
  \<^item> in any cache, a \<open>get\<close> of an absent key returns the default and leaves the
    dictionary as it is, and a \<open>get\<close> that finds the entry expired returns the default
    and deletes that entry.
\<close>

theorem get_within_ttl:
  assumes set: "mc_set c k v ttl_arg t0 = (Inr (), c')"
      and ex: "expiry (stored c k v ttl_arg t0) = Inr x"
      and keeps: "\<forall>op \<in> set ops. keeps_entry k op"
  shows "x = t0 + ttl_or_default c ttl_arg * 1000000
       \<and> (map_of (cache (mc_run c' ops)) k = Some (stored c k v ttl_arg t0) \<or>
          map_of (cache (mc_run c' ops)) k = None)
       \<and> (map_of (cache (mc_run c' ops)) k = Some (stored c k v ttl_arg t0) \<and> t \<le> x \<longrightarrow>
            fst (mc_get (mc_run c' ops) k d t) = Inr v)
       \<and> ((\<forall>op \<in> set ops. no_later t op) \<and>
          int (length (filter (uses_other k) ops)) < max_size c \<and> t \<le> x \<longrightarrow>
            fst (mc_get (mc_run c' ops) k d t) = Inr v)
       \<and> (x < t \<longrightarrow>
            fst (mc_get (mc_run c' ops) k d t) = Inr d \<and>
            \<not> od_contains k (cache (snd (mc_get (mc_run c' ops) k d t))))
       \<and> (map_of (cache c_any) j = None \<longrightarrow>
            fst (mc_get c_any j d t) = Inr d \<and> cache (snd (mc_get c_any j d t)) = cache c_any)
       \<and> (map_of (cache c_any) j = Some item \<and> is_expired item t = Inr True \<longrightarrow>
            fst (mc_get c_any j d t) = Inr d \<and>
            cache (snd (mc_get c_any j d t)) = od_del j (cache c_any) \<and>
            \<not> od_contains j (cache (snd (mc_get c_any j d t))))"
proof -
  let ?item = "stored c k v ttl_arg t0"
  let ?st = "mc_run c' ops"
  have val: "item_value ?item = v" by (simp add: stored_def CacheItem_init_def)
  have A: "x = t0 + ttl_or_default c ttl_arg * 1000000" by (rule expiry_stored[OF ex])
  have l0: "map_of (cache c') k = Some ?item" by (rule mc_set_lookup[OF set])
  have B: "map_of (cache ?st) k = Some ?item \<or> map_of (cache ?st) k = None"
    using run_lookup[OF keeps, of c'] l0 by simp
  have hit: "fst (mc_get ?st k d t) = Inr v" if "map_of (cache ?st) k = Some ?item" "t \<le> x"
  proof -
    from that(2) ex have "is_expired ?item t = Inr False" by (simp add: is_expired_def)
    from mc_get_hit[OF that(1) this, of d] val show ?thesis by simp
  qed
  then have C: "map_of (cache ?st) k = Some ?item \<and> t \<le> x \<longrightarrow> fst (mc_get ?st k d t) = Inr v"
    by blast
  have D: "(\<forall>op \<in> set ops. no_later t op) \<and>
          int (length (filter (uses_other k) ops)) < max_size c \<and> t \<le> x \<longrightarrow>
            fst (mc_get ?st k d t) = Inr v"
  proof
    assume h: "(\<forall>op \<in> set ops. no_later t op) \<and>
          int (length (filter (uses_other k) ops)) < max_size c \<and> t \<le> x"
    from mc_set_shape[OF set] obtain od2 where od2: "cache c' = od2 @ [(k, ?item)]"
      "k \<notin> set (map fst od2)" and ms: "max_size c' = max_size c" by blast
    have at0: "entry_at k ?item 0 (cache c')"
      unfolding entry_at_def using od2 by (intro exI[of _ od2] exI[of _ "[]"]) simp
    have all: "\<forall>op \<in> set ops. keeps_entry k op \<and> no_later x op"
      using keeps h no_later_mono by blast
    have bud: "int 0 + int (length (filter (uses_other k) ops)) < max_size c'"
      using h ms by simp
    from run_present[OF at0 ex all bud]
    have "map_of (cache ?st) k = Some ?item" by (rule entry_at_lookup)
    with hit h show "fst (mc_get ?st k d t) = Inr v" by blast
  qed
  have E: "x < t \<longrightarrow> fst (mc_get ?st k d t) = Inr d \<and>
            \<not> od_contains k (cache (snd (mc_get ?st k d t)))"
  proof
    assume xt: "x < t"
    from B show "fst (mc_get ?st k d t) = Inr d \<and>
            \<not> od_contains k (cache (snd (mc_get ?st k d t)))"
    proof
      assume m: "map_of (cache ?st) k = Some ?item"
      from xt ex have "is_expired ?item t = Inr True" by (simp add: is_expired_def)
      from mc_get_expired[OF m this, of d] show ?thesis by blast
    next
      assume m: "map_of (cache ?st) k = None"
      with mc_get_absent[OF m, of d t] show ?thesis by (simp add: od_contains_def)
    qed
  qed
  have F: "map_of (cache c_any) j = None \<longrightarrow>
            fst (mc_get c_any j d t) = Inr d \<and> cache (snd (mc_get c_any j d t)) = cache c_any"
    using mc_get_absent[of c_any j d t] by blast
  have G: "map_of (cache c_any) j = Some item \<and> is_expired item t = Inr True \<longrightarrow>
            fst (mc_get c_any j d t) = Inr d \<and>
            cache (snd (mc_get c_any j d t)) = od_del j (cache c_any) \<and>
            \<not> od_contains j (cache (snd (mc_get c_any j d t)))"
    using mc_get_expired[of c_any j item t d] by blast
  from A B C D E F G show ?thesis by blast
qed

text \<open>
  The run of the module's \<open>main\<close>: \<open>test1\<close> is set with 5 seconds to live, two other
  keys are set and one is read; \<open>test1\<close> is returned at 5 seconds and is a miss at 6.
\<close>

theorem get_within_ttl_witness:
  "mc_set (MemoryCache_init 5 10) ''test1'' ''valor1'' (Some 5) 0 = (Inr (), ttl_example) \<and>
   expiry (stored (MemoryCache_init 5 10) ''test1'' ''valor1'' (Some 5) 0) = Inr 5000000 \<and>
   map (keeps_entry ''test1'') main_ops = [True, True, True] \<and>
   map (no_later 5000000) main_ops = [True, True, True] \<and>
   fst (mc_get (mc_run ttl_example main_ops) ''test1'' ''miss'' 5000000) = Inr ''valor1'' \<and>
   fst (mc_get (mc_run ttl_example main_ops) ''test1'' ''miss'' 6000000) = Inr ''miss''"
proof -
  have s: "mc_set (MemoryCache_init 5 10) ''test1'' ''valor1'' (Some 5) 0 = (Inr (), ttl_example)"
    by (simp add: ttl_example_def mc_eval)
  have e: "expiry (stored (MemoryCache_init 5 10) ''test1'' ''valor1'' (Some 5) 0) = Inr 5000000"
    by (simp add: mc_eval)
  have k: "\<forall>op \<in> set main_ops. keeps_entry ''test1'' op" by (simp add: main_ops_def)
  have n: "\<forall>op \<in> set main_ops. no_later 5000000 op" by (simp add: main_ops_def)
  have u: "int (length (filter (uses_other ''test1'') main_ops)) < max_size (MemoryCache_init 5 10 :: string MemoryCache)"
    by (simp add: main_ops_def MemoryCache_init_def)
  have km: "map (keeps_entry ''test1'') main_ops = [True, True, True]"
    "map (no_later 5000000) main_ops = [True, True, True]"
    by (simp_all add: main_ops_def)
  from get_within_ttl[OF s e k, of 5000000 "''miss''"] get_within_ttl[OF s e k, of 6000000 "''miss''"]
    s e n u
  have "fst (mc_get (mc_run ttl_example main_ops) ''test1'' ''miss'' 5000000) = Inr ''valor1'' \<and>
        fst (mc_get (mc_run ttl_example main_ops) ''test1'' ''miss'' 6000000) = Inr ''miss''"
    by simp
  with s e km show ?thesis by simp
qed

text \<open>
  Claim C7 as stated fails where something happens between the \<open>set\<close> and the \<open>get\<close>,
  and where the time to live is beyond the dates: within the time to live a \<open>get\<close>
  need not return the value. At capacity 1 a \<open>set\<close>
  of another key evicts the entry, and the \<open>get\<close> one microsecond later is a miss; and
  with a time to live of \<open>10^12\<close> seconds the \<open>get\<close> raises \<open>OverflowError\<close>.
\<close>

theorem get_after_eviction_counterexample:
  "fst (mc_set (MemoryCache_init 1 3600) ''a'' ''v'' (Some 100) 0) = Inr () \<and>
   fst (mc_get (mc_run (snd (mc_set (MemoryCache_init 1 3600) ''a'' ''v'' (Some 100) 0))
                  [Set ''b'' ''w'' (Some 100) 1])
          ''a'' ''miss'' 2) = Inr ''miss'' \<and>
   fst (mc_set (MemoryCache_init 5 3600) ''a'' ''v'' (Some 1000000000000) 0) = Inr () \<and>
   fst (mc_get (snd (mc_set (MemoryCache_init 5 3600) ''a'' ''v'' (Some 1000000000000) 0))
          ''a'' ''miss'' 1) = Inl (PyExn ''OverflowError'' ''date value out of range'')"
  by (simp add: mc_eval)

text \<open>
  A \<open>get\<close> with the default left at \<open>None\<close> on an entry that stores \<open>None\<close>.
\<close>

lemma mc_get_none: "holds_none mm k now \<Longrightarrow> fst (mc_get mm k None now) = Inr None"
  by (auto simp: holds_none_def mc_get_def split: sum.splits bool.splits)

text \<open>
  Claim C10, for the return value of \<open>get\<close>. \<open>MemoryCache.get(key, default)\<close> returns
  the default when the key is absent, when its entry has expired, and when the entry
  is live and stores the default. With the default left at \<open>None\<close>, a cache that stores
  \<open>None\<close> for the key and a cache without the key return the same, \<open>None\<close>. And
  \<open>Cache.get\<close> returns what the persistent tier returns whenever the memory tier holds
  \<open>None\<close> for the key (and \<open>is_expired\<close> of that entry does not raise).
\<close>

theorem none_value_is_a_miss:
  "(map_of (cache c) k = None \<or>
    (\<exists>item. map_of (cache c) k = Some item \<and> is_expired item now = Inr True)
      \<longrightarrow> fst (mc_get c k d now) = Inr d)
   \<and> ((\<exists>item. map_of (cache c) k = Some item \<and> is_expired item now = Inr False \<and> item_value item = d)
      \<longrightarrow> fst (mc_get c k d now) = Inr d)
   \<and> (holds_none m k now \<and> map_of (cache m_absent) k = None
      \<longrightarrow> fst (mc_get m k None now) = Inr None \<and> fst (mc_get m_absent k None now) = Inr None)
   \<and> (holds_none (memory_cache cc) k now
      \<longrightarrow> fst (Cache_get cc k dflt now now') = fst (pc_get (persistent_cache cc) k dflt now'))"
proof -
  have A: "map_of (cache c) k = None \<or>
    (\<exists>item. map_of (cache c) k = Some item \<and> is_expired item now = Inr True)
      \<longrightarrow> fst (mc_get c k d now) = Inr d"
    using mc_get_absent[of c k d now] mc_get_expired[of c k _ now d] by blast
  have B: "(\<exists>item. map_of (cache c) k = Some item \<and> is_expired item now = Inr False \<and> item_value item = d)
      \<longrightarrow> fst (mc_get c k d now) = Inr d"
    using mc_get_hit[of c k _ now d] by auto
  have C: "holds_none m k now \<and> map_of (cache m_absent) k = None
      \<longrightarrow> fst (mc_get m k None now) = Inr None \<and> fst (mc_get m_absent k None now) = Inr None"
    using mc_get_none[of m k now] mc_get_absent[of m_absent k None now] by simp
  have D: "holds_none (memory_cache cc) k now
      \<longrightarrow> fst (Cache_get cc k dflt now now') = fst (pc_get (persistent_cache cc) k dflt now')"
  proof
    assume "holds_none (memory_cache cc) k now"
    then have "fst (mc_get (memory_cache cc) k None now) = Inr None" by (rule mc_get_none)
    then show "fst (Cache_get cc k dflt now now') = fst (pc_get (persistent_cache cc) k dflt now')"
      by (auto simp: Cache_get_def split: prod.splits sum.splits)
  qed
  from A B C D show ?thesis by blast
qed

text \<open>
  The memory tier stores \<open>None\<close> and the persistent tier stores 7 under the same key:
  \<open>Cache.get\<close> returns 7.
\<close>

theorem none_value_is_a_miss_witness:
  "holds_none none_example ''k'' 1000000 \<and>
   fst (Cache_get \<lparr> memory_cache = none_example,
                    persistent_cache = \<lparr> pc_memory_cache = seven_example \<rparr> \<rparr>
          ''k'' None 1000000 1000000) = Inr (Some 7)"
proof -
  let ?cc = "\<lparr> memory_cache = none_example,
              persistent_cache = \<lparr> pc_memory_cache = seven_example \<rparr> \<rparr>"
  have h: "holds_none none_example ''k'' 1000000"
    by (simp add: holds_none_def none_example_def mc_eval)
  have p: "fst (pc_get (persistent_cache ?cc) ''k'' None 1000000) = Inr (Some 7)"
    by (simp add: seven_example_def pc_get_def mc_eval)
  from none_value_is_a_miss[where c = none_example and d = None and m = none_example
      and m_absent = "MemoryCache_init 5 10" and cc = ?cc and k = "''k''" and dflt = None
      and now = 1000000 and now' = 1000000]
  have "holds_none (memory_cache ?cc) ''k'' 1000000 \<longrightarrow>
        fst (Cache_get ?cc ''k'' None 1000000 1000000) =
        fst (pc_get (persistent_cache ?cc) ''k'' None 1000000)"
    by blast
  with h p show ?thesis by simp
qed

text \<open>
  Claim C10 as stated fails on the public interface as a whole: a stored \<open>None\<close> can be
  told from a miss. \<open>exists\<close> returns \<open>True\<close> for it, a \<open>get\<close>
  with another default returns \<open>None\<close> and not that default, and the \<open>get\<close> counts as
  a hit.
\<close>

theorem stored_none_is_visible_counterexample:
  "fst (mc_exists none_example ''k'' 1000000) = Inr True \<and>
   fst (mc_exists (MemoryCache_init 5 10 :: nat option MemoryCache) ''k'' 1000000) = Inr False \<and>
   fst (mc_get none_example ''k'' (Some 0) 1000000) = Inr None \<and>
   fst (mc_get (MemoryCache_init 5 10 :: nat option MemoryCache) ''k'' (Some 0) 1000000) = Inr (Some 0) \<and>
   hits (stats (snd (mc_get none_example ''k'' None 1000000))) = 1 \<and>
   hits (stats (snd (mc_get (MemoryCache_init 5 10 :: nat option MemoryCache) ''k'' None 1000000))) = 0"
  by (simp add: none_example_def mc_eval)

section \<open>The alerts: cooldown\<close>


























section \<open>The z-score detector\<close>
















section \<open>Feature construction\<close>

text \<open>
  The feature vectors of a series that is at least as long as the window.
\<close>

lemma prepare_features_eq:
  "1 \<le> ws \<Longrightarrow> ws \<le> length data \<Longrightarrow>
   prepare_features data ws = Inr (map (feature_vector data ws) [ws..<length data])"
  by (simp add: prepare_features_def)

lemma feature_vector_nth:
  "feature_vector data ws (ws + j) =
     [np_mean (take ws (drop j data)), np_std (take ws (drop j data)),
      np_min (take ws (drop j data)), np_max (take ws (drop j data)),
      np_median (take ws (drop j data)), np_percentile (take ws (drop j data)) 25,
      np_percentile (take ws (drop j data)) 75, data ! (ws + j)]"
  by (simp add: feature_vector_def Let_def)

lemma scored_positions_eq:
  assumes "1 \<le> ws" "ws \<le> length data"
  shows "scored_positions data ws = {ws..<length data}"
proof -
  have "{ws + i | i. i < length data - ws \<and> ws + i < length data} = {ws..<length data}"
  proof (rule set_eqI)
    fix p
    show "p \<in> {ws + i | i. i < length data - ws \<and> ws + i < length data} \<longleftrightarrow> p \<in> {ws..<length data}"
    proof
      assume "p \<in> {ws + i | i. i < length data - ws \<and> ws + i < length data}"
      then show "p \<in> {ws..<length data}" by auto
    next
      assume p: "p \<in> {ws..<length data}"
      then have "p = ws + (p - ws) \<and> p - ws < length data - ws \<and> ws + (p - ws) < length data"
        by auto
      then show "p \<in> {ws + i | i. i < length data - ws \<and> ws + i < length data}" by blast
    qed
  qed
  then show ?thesis
    by (simp add: scored_positions_def prepare_features_eq[OF assms])
qed

text \<open>
  What the model-based path reports, and what of the model it uses.
\<close>

lemma ml_results_positions:
  "r \<in> set (ml_results metric alg data ws thr now scores) \<Longrightarrow>
   \<exists>p. ws \<le> p \<and> p < length data \<and> ar_value r = data ! p"
proof -
  assume "r \<in> set (ml_results metric alg data ws thr now scores)"
  then obtain i where i: "ws + i < length data" "ar_value r = data ! (ws + i)"
    by (auto simp: ml_results_def)
  then have "ws \<le> ws + i \<and> ws + i < length data \<and> ar_value r = data ! (ws + i)" by simp
  then show ?thesis by blast
qed

lemma detect_predict_cong:
  assumes X: "prepare_features data ws = Inr X" and eq: "\<forall>x \<in> set X. f x = f' x"
  shows "detect_with_ml_model (Predict f) metric alg data ws thr now fallback =
         detect_with_ml_model (Predict f') metric alg data ws thr now fallback"
proof -
  from eq have a: "(\<exists>x \<in> set X. isl (f x)) = (\<exists>x \<in> set X. isl (f' x))" by simp
  from eq have b: "map (\<lambda>x. if projr (f x) = - 1 then 1 else 0) X =
                   map (\<lambda>x. if projr (f' x) = - 1 then (1::real) else 0) X" by simp
  show ?thesis by (simp add: detect_with_ml_model_def X a b)
qed

lemma detect_score_cong:
  assumes X: "prepare_features data ws = Inr X" and eq: "\<forall>x \<in> set X. s x = s' x"
  shows "detect_with_ml_model (ScoreSamples s) metric alg data ws thr now fallback =
         detect_with_ml_model (ScoreSamples s') metric alg data ws thr now fallback"
proof -
  from eq have b: "map s X = map s' X" by simp
  show ?thesis by (simp add: detect_with_ml_model_def X b)
qed

text \<open>
  Claim C9, with the count of the points that get no vector set right. For a window
  size \<open>ws \<ge> 1\<close> and a series of at least \<open>ws\<close> points:
  \<^item> \<open>_prepare_features\<close> returns one vector for every position from \<open>ws\<close> on, in
    order, so \<open>len(data) - ws\<close> vectors: the first \<open>ws\<close> points get none;
  \<^item> the vector number \<open>j\<close> is \<open>[mean, std, min, max, median, Q1, Q3]\<close> of the \<open>ws\<close>
    points \<open>data[j : j + ws]\<close>, followed by the current value \<open>data[ws + j]\<close>;
  \<^item> the positions the model-based path can report are those from \<open>ws\<close> on, and every
    result it builds carries the value of such a position;
  \<^item> the result depends on the model only through what the model gives on these
    vectors.
\<close>

theorem feature_windows:
  assumes ws: "1 \<le> ws" and len: "ws \<le> length data"
  shows "prepare_features data ws = Inr (map (feature_vector data ws) [ws..<length data])
       \<and> length (map (feature_vector data ws) [ws..<length data]) = length data - ws
       \<and> (j < length data - ws \<longrightarrow>
            map (feature_vector data ws) [ws..<length data] ! j =
              [np_mean (take ws (drop j data)), np_std (take ws (drop j data)),
               np_min (take ws (drop j data)), np_max (take ws (drop j data)),
               np_median (take ws (drop j data)), np_percentile (take ws (drop j data)) 25,
               np_percentile (take ws (drop j data)) 75, data ! (ws + j)])
       \<and> scored_positions data ws = {ws..<length data}
       \<and> (\<forall>r \<in> set (ml_results metric alg data ws thr now scores).
            \<exists>p. ws \<le> p \<and> p < length data \<and> ar_value r = data ! p)
       \<and> ((\<forall>x \<in> set (map (feature_vector data ws) [ws..<length data]). f x = f' x) \<longrightarrow>
            detect_with_ml_model (Predict f) metric alg data ws thr now fallback =
            detect_with_ml_model (Predict f') metric alg data ws thr now fallback)
       \<and> ((\<forall>x \<in> set (map (feature_vector data ws) [ws..<length data]). s x = s' x) \<longrightarrow>
            detect_with_ml_model (ScoreSamples s) metric alg data ws thr now fallback =
            detect_with_ml_model (ScoreSamples s') metric alg data ws thr now fallback)"
proof -
  let ?X = "map (feature_vector data ws) [ws..<length data]"
  have A: "prepare_features data ws = Inr ?X" by (rule prepare_features_eq[OF ws len])
  have B: "length ?X = length data - ws" by simp
  have C: "j < length data - ws \<longrightarrow>
            ?X ! j =
              [np_mean (take ws (drop j data)), np_std (take ws (drop j data)),
               np_min (take ws (drop j data)), np_max (take ws (drop j data)),
               np_median (take ws (drop j data)), np_percentile (take ws (drop j data)) 25,
               np_percentile (take ws (drop j data)) 75, data ! (ws + j)]"
    by (simp add: feature_vector_nth)
  have D: "scored_positions data ws = {ws..<length data}" by (rule scored_positions_eq[OF ws len])
  have E: "\<forall>r \<in> set (ml_results metric alg data ws thr now scores).
            \<exists>p. ws \<le> p \<and> p < length data \<and> ar_value r = data ! p"
    using ml_results_positions by blast
  have F: "(\<forall>x \<in> set ?X. f x = f' x) \<longrightarrow>
            detect_with_ml_model (Predict f) metric alg data ws thr now fallback =
            detect_with_ml_model (Predict f') metric alg data ws thr now fallback"
    using detect_predict_cong[OF A] by blast
  have G: "(\<forall>x \<in> set ?X. s x = s' x) \<longrightarrow>
            detect_with_ml_model (ScoreSamples s) metric alg data ws thr now fallback =
            detect_with_ml_model (ScoreSamples s') metric alg data ws thr now fallback"
    using detect_score_cong[OF A] by blast
  from A B C D E F G show ?thesis by blast
qed

text \<open>
  Five points and a window of 3: two vectors, and the positions 3 and 4.
\<close>

theorem feature_windows_witness:
  "(1::nat) \<le> 3 \<and> 3 \<le> length five_points \<and>
   map_sum id length (prepare_features five_points 3) = Inr 2 \<and>
   scored_positions five_points 3 = {3..<5}"
proof -
  have a: "(1::nat) \<le> 3" by simp
  have b: "3 \<le> length five_points" by (simp add: five_points_def)
  have l: "length five_points = 5" by (simp add: five_points_def)
  from feature_windows[OF a b] l a b show ?thesis by simp
qed

text \<open>
  Claim C9 as stated fails on the count. Five points and a window of 3: the first \<open>3 - 1 = 2\<close> points are not the only ones
  without a vector: there are two vectors and not three, their current values are the
  points 4 and 5, their means are those of \<open>1, 2, 3\<close> and \<open>2, 3, 4\<close>, and the third point
  (position 2) is not among the positions scored.
\<close>

theorem first_window_counterexample:
  "length five_points = 5 \<and>
   map_sum id length (prepare_features five_points 3) = Inr 2 \<and>
   map_sum id (map last) (prepare_features five_points 3) = Inr [4, 5] \<and>
   map_sum id (map hd) (prepare_features five_points 3) = Inr [2, 3] \<and>
   scored_positions five_points 3 = {3, 4}"
proof -
  have a: "(1::nat) \<le> 3" by simp
  have b: "3 \<le> length five_points" by (simp add: five_points_def)
  have u: "[3..<5] = [3, 4::nat]" by (simp add: upt_rec)
  have s: "scored_positions five_points 3 = {3, 4}"
    unfolding scored_positions_eq[OF a b] by (auto simp: five_points_def)
  have l: "length five_points = 5" by (simp add: five_points_def)
  have p: "prepare_features five_points 3 = Inr [feature_vector five_points 3 3, feature_vector five_points 3 4]"
    unfolding prepare_features_eq[OF a b] l u by simp
  have m: "np_mean (take 3 (drop 0 five_points)) = 2" "np_mean (take 3 (drop 1 five_points)) = 3"
    by (simp_all add: five_points_def np_mean_def)
  from feature_vector_nth[of five_points 3 0] feature_vector_nth[of five_points 3 1] m
  have f: "hd (feature_vector five_points 3 3) = 2" "hd (feature_vector five_points 3 4) = 3"
    "last (feature_vector five_points 3 3) = 4" "last (feature_vector five_points 3 4) = 5"
    by (simp_all add: five_points_def)
  from s p f l show ?thesis by simp
qed

end
